theory Spec2Isabelle
  imports Complex_Main "HOL-Library.AList" "HOL-Library.Sublist"
begin

section \<open>JavaScript containers and values\<close>

text \<open>
  A JavaScript \<^verbatim>\<open>Map\<close> iterates in insertion order, and \<^verbatim>\<open>Map.set\<close> on a key that
  is already present keeps the key's position. It is modelled as an association list in
  insertion order; \<^const>\<open>AList.update\<close> is exactly \<^verbatim>\<open>Map.set\<close> (replace in place, or
  append at the end).

  A JavaScript \<^verbatim>\<open>Set\<close> is modelled as the list of its elements in insertion order.
\<close>

definition map_has :: "('k \<times> 'v) list \<Rightarrow> 'k \<Rightarrow> bool" where
  "map_has m k = (map_of m k \<noteq> None)"

definition map_get :: "('k \<times> 'v) list \<Rightarrow> 'k \<Rightarrow> 'v option" where
  "map_get m k = map_of m k"

definition map_set :: "'k \<Rightarrow> 'v \<Rightarrow> ('k \<times> 'v) list \<Rightarrow> ('k \<times> 'v) list" where
  "map_set k v m = AList.update k v m"

definition map_keys :: "('k \<times> 'v) list \<Rightarrow> 'k list" where
  "map_keys m = map fst m"

definition set_has :: "'a list \<Rightarrow> 'a \<Rightarrow> bool" where
  "set_has xs x = (x \<in> set xs)"

definition set_add :: "'a \<Rightarrow> 'a list \<Rightarrow> 'a list" where
  "set_add x xs = (if x \<in> set xs then xs else xs @ [x])"

definition set_delete :: "'a \<Rightarrow> 'a list \<Rightarrow> 'a list" where
  "set_delete x xs = removeAll x xs"

text \<open>
  \<^verbatim>\<open>window.nostrAuth?.pubkey\<close> is read from a collaborator that is not part of the
  sources: it is \<^verbatim>\<open>undefined\<close>, \<^verbatim>\<open>null\<close> or a string. The three are kept apart because
  the code compares it with \<^verbatim>\<open>===\<close> against a tag value that may itself be
  \<^verbatim>\<open>undefined\<close>.
\<close>

datatype jsval = JsUndefined | JsNull | JsString string

fun of_opt :: "string option \<Rightarrow> jsval" where
  "of_opt None = JsUndefined"
| "of_opt (Some s) = JsString s"

text \<open>Truthiness of a value that is a string or \<^verbatim>\<open>undefined\<close>: the empty string is falsy.\<close>

fun truthy :: "string option \<Rightarrow> bool" where
  "truthy None = False"
| "truthy (Some s) = (s \<noteq> [])"

section \<open>Events and profiles\<close>

text \<open>
  The wire shape of an event, \<^verbatim>\<open>{id, pubkey, created_at, kind, tags, content, sig}\<close>.
  The field \<^verbatim>\<open>id\<close> is named \<open>event_id\<close> here (\<open>id\<close> is HOL's identity function).
\<close>

record event =
  event_id :: string
  pubkey :: string
  created_at :: int
  kind :: int
  tags :: "string list list"
  content :: string
  sig :: string

text \<open>
  A stored profile is \<^verbatim>\<open>{...JSON.parse(content), created_at: event.created_at}\<close>: free-form
  metadata and the timestamp of the kind-0 event it came from.
\<close>

record profile =
  profile_fields :: "(string \<times> string) list"
  profile_created_at :: int

text \<open>\<^verbatim>\<open>t[i]\<close> on an array of strings: \<^verbatim>\<open>undefined\<close> (here \<open>None\<close>) out of range.\<close>

definition tag_at :: "string list \<Rightarrow> nat \<Rightarrow> string option" where
  "tag_at t i = (if i < length t then Some (t ! i) else None)"

text \<open>\<^verbatim>\<open>tags.find(t => t[0] === name)?.[1]\<close>\<close>

definition first_tag_value :: "string \<Rightarrow> string list list \<Rightarrow> string option" where
  "first_tag_value name tgs =
     (case find (\<lambda>t. tag_at t 0 = Some name) tgs of
        None \<Rightarrow> None
      | Some t \<Rightarrow> tag_at t 1)"

section \<open>DataStore\<close>

record reaction_count =
  reposts :: nat
  reactions :: nat

text \<open>An object with one field per tab, as \<^verbatim>\<open>oldestTimestamps\<close> and \<^verbatim>\<open>visibleEventIds\<close> are.\<close>

record 'a tabs =
  global :: 'a
  following :: 'a
  myposts :: 'a
  likes :: 'a

record DataStore =
  events :: "(string \<times> event) list"
  profiles :: "(string \<times> profile) list"
  myPostIds :: "string list"
  receivedLikeIds :: "string list"
  followingPubkeys :: "string list"
  likedByMeIds :: "string list"
  reactionCounts :: "(string \<times> reaction_count) list"
  oldestTimestamps :: "rat tabs"

text \<open>The constructor; \<open>now\<close> is \<^verbatim>\<open>Date.now()\<close> in milliseconds.\<close>

definition new_DataStore :: "int \<Rightarrow> DataStore" where
  "new_DataStore now =
     \<lparr> events = [], profiles = [], myPostIds = [], receivedLikeIds = [],
       followingPubkeys = [], likedByMeIds = [], reactionCounts = [],
       oldestTimestamps =
         \<lparr> global = of_int now / 1000, following = of_int now / 1000,
           myposts = of_int now / 1000, likes = of_int now / 1000 \<rparr> \<rparr>"

definition updateOldestTimestamps :: "jsval \<Rightarrow> event \<Rightarrow> DataStore \<Rightarrow> DataStore" where
  "updateOldestTimestamps myPubkey ev s =
     (if kind ev \<noteq> 1 \<and> kind ev \<noteq> 6 then s
      else
        let ts = oldestTimestamps s;
            ts1 = (if of_int (created_at ev) < global ts
                   then ts\<lparr>global := of_int (created_at ev)\<rparr> else ts);
            ts2 = (if set_has (followingPubkeys s) (pubkey ev)
                   then (if of_int (created_at ev) < following ts1
                         then ts1\<lparr>following := of_int (created_at ev)\<rparr> else ts1)
                   else ts1);
            ts3 = (if kind ev = 1 \<and> JsString (pubkey ev) = myPubkey
                   then (if of_int (created_at ev) < myposts ts2
                         then ts2\<lparr>myposts := of_int (created_at ev)\<rparr> else ts2)
                   else ts2)
        in s\<lparr>oldestTimestamps := ts3\<rparr>)"

definition updateReactionCount :: "event \<Rightarrow> DataStore \<Rightarrow> DataStore" where
  "updateReactionCount ev s =
     (let targetId = first_tag_value ''e'' (tags ev) in
      if \<not> truthy targetId then s
      else
        (case targetId of
           None \<Rightarrow> s
         | Some t \<Rightarrow>
             let rc = (if \<not> map_has (reactionCounts s) t
                       then map_set t \<lparr>reposts = 0, reactions = 0\<rparr> (reactionCounts s)
                       else reactionCounts s);
                 counts = (case map_get rc t of
                             Some c \<Rightarrow> c
                           | None \<Rightarrow> \<lparr>reposts = 0, reactions = 0\<rparr>);
                 counts' = (if kind ev = 6 then counts\<lparr>reposts := reposts counts + 1\<rparr>
                            else if kind ev = 7 then counts\<lparr>reactions := reactions counts + 1\<rparr>
                            else counts)
             in s\<lparr>reactionCounts := map_set t counts' rc\<rparr>))"

definition categorizeEvent :: "jsval \<Rightarrow> event \<Rightarrow> DataStore \<Rightarrow> DataStore" where
  "categorizeEvent myPubkey ev s =
     (let s1 = (if kind ev = 1 \<and> JsString (pubkey ev) = myPubkey
                then s\<lparr>myPostIds := set_add (event_id ev) (myPostIds s)\<rparr> else s);
          s2 = (if kind ev = 7
                then
                  let targetPubkey = first_tag_value ''p'' (tags ev);
                      a = (if of_opt targetPubkey = myPubkey
                           then s1\<lparr>receivedLikeIds := set_add (event_id ev) (receivedLikeIds s1)\<rparr>
                           else s1);
                      b = (if JsString (pubkey ev) = myPubkey
                           then
                             (case first_tag_value ''e'' (tags ev) of
                                Some targetEventId \<Rightarrow>
                                  if targetEventId \<noteq> []
                                  then a\<lparr>likedByMeIds := set_add targetEventId (likedByMeIds a)\<rparr>
                                  else a
                              | None \<Rightarrow> a)
                           else a)
                  in updateReactionCount ev b
                else s1)
      in if kind ev = 6 then updateReactionCount ev s2 else s2)"

text \<open>
  \<open>verifyEvent\<close> is the signature verifier \<^verbatim>\<open>window.NostrTools.verifyEvent\<close>, a capability
  of a library outside the sources: a parameter. The result pairs the returned boolean
  with the store after the call.
\<close>

definition addEvent ::
  "(event \<Rightarrow> bool) \<Rightarrow> jsval \<Rightarrow> event \<Rightarrow> DataStore \<Rightarrow> bool \<times> DataStore" where
  "addEvent verifyEvent myPubkey ev s =
     (if map_has (events s) (event_id ev) then (False, s)
      else if \<not> verifyEvent ev then (False, s)
      else
        (True,
         updateOldestTimestamps myPubkey ev
           (categorizeEvent myPubkey ev
              (s\<lparr>events := map_set (event_id ev) ev (events s)\<rparr>))))"

definition addProfile :: "string \<Rightarrow> profile \<Rightarrow> DataStore \<Rightarrow> bool \<times> DataStore" where
  "addProfile pk profileData s =
     (case map_get (profiles s) pk of
        Some existing \<Rightarrow>
          if profile_created_at existing \<ge> profile_created_at profileData then (False, s)
          else (True, s\<lparr>profiles := map_set pk profileData (profiles s)\<rparr>)
      | None \<Rightarrow> (True, s\<lparr>profiles := map_set pk profileData (profiles s)\<rparr>))"

definition setFollowingList :: "string list \<Rightarrow> DataStore \<Rightarrow> DataStore" where
  "setFollowingList pubkeys s =
     s\<lparr>followingPubkeys := foldl (\<lambda>acc pk. set_add pk acc) [] pubkeys\<rparr>"

definition getReactionCount :: "DataStore \<Rightarrow> string \<Rightarrow> reaction_count" where
  "getReactionCount s eventId =
     (case map_get (reactionCounts s) eventId of
        Some c \<Rightarrow> c
      | None \<Rightarrow> \<lparr>reposts = 0, reactions = 0\<rparr>)"

definition clear :: "int \<Rightarrow> DataStore \<Rightarrow> DataStore" where
  "clear now s = new_DataStore now"

text \<open>
  The calls a client can make on the store, and their effect in sequence. The local
  identity is an argument of each \<open>AddEvent\<close>, since it may change between calls.
\<close>

datatype store_op =
  AddEvent jsval event
| AddProfile string profile
| SetFollowingList "string list"
| Clear int

fun store_step :: "(event \<Rightarrow> bool) \<Rightarrow> DataStore \<Rightarrow> store_op \<Rightarrow> DataStore" where
  "store_step verifyEvent s (AddEvent my ev) = snd (addEvent verifyEvent my ev s)"
| "store_step verifyEvent s (AddProfile pk p) = snd (addProfile pk p s)"
| "store_step verifyEvent s (SetFollowingList pks) = setFollowingList pks s"
| "store_step verifyEvent s (Clear now) = clear now s"

definition store_run :: "(event \<Rightarrow> bool) \<Rightarrow> int \<Rightarrow> store_op list \<Rightarrow> DataStore" where
  "store_run verifyEvent now ops = foldl (store_step verifyEvent) (new_DataStore now) ops"

section \<open>Queries of the store\<close>

datatype js_error = TypeError | NotConnected

text \<open>
  \<^verbatim>\<open>Array.prototype.sort(cmp)\<close> is a stable sort (ECMAScript 2019): for a comparator
  that is a consistent ordering its result is the one list that is ordered by \<open>cmp\<close> and
  keeps elements that compare equal in their original order. That list is computed here
  by insertion from the right, an element going before the first element it does not
  compare greater than.
\<close>

fun insort_cmp :: "('a \<Rightarrow> 'a \<Rightarrow> int) \<Rightarrow> 'a \<Rightarrow> 'a list \<Rightarrow> 'a list" where
  "insort_cmp cmp x [] = [x]"
| "insort_cmp cmp x (y # ys) = (if cmp x y \<le> 0 then x # y # ys else y # insort_cmp cmp x ys)"

definition js_sort :: "('a \<Rightarrow> 'a \<Rightarrow> int) \<Rightarrow> 'a list \<Rightarrow> 'a list" where
  "js_sort cmp xs = foldr (insort_cmp cmp) xs []"

text \<open>The comparator \<^verbatim>\<open>(a, b) => b.created_at - a.created_at\<close>.\<close>

definition by_created_at_desc :: "event \<Rightarrow> event \<Rightarrow> int" where
  "by_created_at_desc a b = created_at b - created_at a"

text \<open>\<^verbatim>\<open>ev.tags.some(tag => tag[0] === 'client' && tag[1] === 'flowgazer')\<close>\<close>

definition is_flowgazer :: "event \<Rightarrow> bool" where
  "is_flowgazer ev =
     list_ex (\<lambda>tag. tag_at tag 0 = Some ''client'' \<and> tag_at tag 1 = Some ''flowgazer'') (tags ev)"

text \<open>
  \<^verbatim>\<open>ids.filter(id => { const ev = this.events.get(id); return P(ev); })\<close> where \<open>P\<close> reads
  a field of \<open>ev\<close>: an id with no event in the table raises a \<^verbatim>\<open>TypeError\<close>.
\<close>

fun filter_ids ::
  "(event \<Rightarrow> bool) \<Rightarrow> (string \<times> event) list \<Rightarrow> string list \<Rightarrow> js_error + string list" where
  "filter_ids P m [] = Inr []"
| "filter_ids P m (i # ids) =
     (case map_get m i of
        None \<Rightarrow> Inl TypeError
      | Some ev \<Rightarrow>
          (case filter_ids P m ids of
             Inl e \<Rightarrow> Inl e
           | Inr r \<Rightarrow> Inr (if P ev then i # r else r)))"

text \<open>\<^verbatim>\<open>ids.map(id => events.get(id)).filter(Boolean)\<close>: ids with no event are dropped.\<close>

definition lookup_events :: "(string \<times> event) list \<Rightarrow> string list \<Rightarrow> event list" where
  "lookup_events m ids = List.map_filter (map_get m) ids"

record filterOptions =
  flowgazerOnly :: bool
  authors :: "string list option"

definition no_filter :: filterOptions where
  "no_filter = \<lparr> flowgazerOnly = False, authors = None \<rparr>"

definition getEventsByTab ::
  "string \<Rightarrow> filterOptions \<Rightarrow> DataStore \<Rightarrow> js_error + event list" where
  "getEventsByTab tab opts s =
     (let selected =
        (if tab = ''global'' then
           Some (filter_ids (\<lambda>ev. kind ev = 1 \<or> kind ev = 6) (events s) (map_keys (events s)))
         else if tab = ''following'' then
           Some (filter_ids
                   (\<lambda>ev. (kind ev = 1 \<or> kind ev = 6) \<and> set_has (followingPubkeys s) (pubkey ev))
                   (events s) (map_keys (events s)))
         else if tab = ''myposts'' then Some (Inr (myPostIds s))
         else if tab = ''likes'' then Some (Inr (receivedLikeIds s))
         else None)
      in case selected of
           None \<Rightarrow> Inr []
         | Some (Inl e) \<Rightarrow> Inl e
         | Some (Inr eventIds) \<Rightarrow>
             (case (if flowgazerOnly opts \<and> tab \<noteq> ''likes''
                    then filter_ids (\<lambda>ev. kind ev = 1 \<and> is_flowgazer ev) (events s) eventIds
                    else Inr eventIds) of
                Inl e \<Rightarrow> Inl e
              | Inr eventIds' \<Rightarrow>
                  Inr (js_sort by_created_at_desc (lookup_events (events s) eventIds'))))"

section \<open>RelayManager\<close>

datatype readyState = CONNECTING | OPEN | CLOSING | CLOSED

text \<open>A relay filter, as far as the sources build one for profile batches.\<close>

record relay_filter =
  filter_kinds :: "int list"
  filter_authors :: "string list"

datatype frame = REQ string "relay_filter list" | CLOSE string | EVENT event

datatype timer_kind = ConnectTimeout | ReconnectTimer

text \<open>
  What a method does to the outside: it creates a socket, sends a frame, closes the
  socket, arms a timer, or settles the promise that \<open>connect\<close> returned for the socket.
\<close>

datatype effect =
  NewWebSocket string
| Send frame
| SocketClose
| SetTimeout timer_kind nat
| Resolve
| Reject

text \<open>
  The handler registered under a subscription id is a closure; it is kept as data:
  a profile batch's handler with the id and the keys it has captured, or a handler of
  the application, named.
\<close>

datatype handler = ProfilesHandler string "string list" | AppHandler string

text \<open>
  \<open>ws\<close> is \<^verbatim>\<open>this.ws\<close>: \<open>None\<close> for \<^verbatim>\<open>null\<close>, otherwise the \<^verbatim>\<open>readyState\<close> of the socket it
  holds. \<^verbatim>\<open>maxReconnectAttempts\<close> is assigned once, in the constructor, and is a constant
  here.
\<close>

record RelayManager =
  ws :: "readyState option"
  url :: "string option"
  subscriptions :: "(string \<times> handler) list"
  reconnectAttempts :: nat
  isConnecting :: bool

definition maxReconnectAttempts :: nat where
  "maxReconnectAttempts = 3"

definition new_RelayManager :: RelayManager where
  "new_RelayManager =
     \<lparr> ws = None, url = None, subscriptions = [], reconnectAttempts = 0, isConnecting = False \<rparr>"

text \<open>\<^verbatim>\<open>ws.close()\<close>: a socket that is connecting or open starts closing.\<close>

fun socket_close :: "readyState \<Rightarrow> readyState" where
  "socket_close CONNECTING = CLOSING"
| "socket_close OPEN = CLOSING"
| "socket_close CLOSING = CLOSING"
| "socket_close CLOSED = CLOSED"

definition subscribe ::
  "string \<Rightarrow> relay_filter list \<Rightarrow> handler \<Rightarrow> RelayManager \<Rightarrow> bool \<times> RelayManager \<times> effect list"
  where
  "subscribe subId filters h rm =
     (if ws rm \<noteq> Some OPEN then (False, rm, [])
      else (True, rm\<lparr>subscriptions := map_set subId h (subscriptions rm)\<rparr>,
            [Send (REQ subId filters)]))"

definition unsubscribe :: "string \<Rightarrow> RelayManager \<Rightarrow> RelayManager \<times> effect list" where
  "unsubscribe subId rm =
     (if ws rm \<noteq> Some OPEN
      then (rm\<lparr>subscriptions := AList.delete subId (subscriptions rm)\<rparr>, [])
      else (rm\<lparr>subscriptions := AList.delete subId (subscriptions rm)\<rparr>, [Send (CLOSE subId)]))"

definition unsubscribeAll :: "RelayManager \<Rightarrow> RelayManager \<times> effect list" where
  "unsubscribeAll rm =
     foldl (\<lambda>(r, out) subId. let (r', out') = unsubscribe subId r in (r', out @ out'))
       (rm, []) (map_keys (subscriptions rm))"

definition resubscribeAll :: "RelayManager \<Rightarrow> RelayManager" where
  "resubscribeAll rm =
     rm\<lparr>subscriptions := foldl (\<lambda>m (subId, h). map_set subId h m) [] (subscriptions rm)\<rparr>"

definition disconnect :: "RelayManager \<Rightarrow> RelayManager \<times> effect list" where
  "disconnect rm =
     (case ws rm of
        Some st \<Rightarrow>
          let (rm1, out) = unsubscribeAll rm
          in (rm1\<lparr>ws := None, url := None\<rparr>, out @ [SocketClose])
      | None \<Rightarrow> (rm\<lparr>url := None\<rparr>, []))"

definition attemptReconnect :: "RelayManager \<Rightarrow> RelayManager \<times> effect list" where
  "attemptReconnect rm =
     (if reconnectAttempts rm \<ge> maxReconnectAttempts then (rm, [])
      else
        let rm1 = rm\<lparr>reconnectAttempts := reconnectAttempts rm + 1\<rparr>;
            delay = min (1000 * 2 ^ reconnectAttempts rm1) 10000
        in (rm1, [SetTimeout ReconnectTimer delay]))"

text \<open>
  \<open>connect\<close>. \<open>wsOk url\<close> says whether \<^verbatim>\<open>new WebSocket(url)\<close> returns; when it throws,
  the \<^verbatim>\<open>catch\<close> rejects and \<^verbatim>\<open>this.ws\<close> keeps the value it had. The handlers the source
  installs on the socket are the functions \<open>ws_onopen\<close>, \<open>ws_onerror\<close>, \<open>ws_onclose\<close> and
  the timeout callback \<open>connect_timeout\<close> below.
\<close>

definition connect :: "(string \<Rightarrow> bool) \<Rightarrow> string \<Rightarrow> RelayManager \<Rightarrow> RelayManager \<times> effect list"
  where
  "connect wsOk u rm =
     (if ws rm = Some OPEN \<and> url rm = Some u then (rm, [Resolve])
      else
        let (rm1, out) = (if ws rm \<noteq> None then disconnect rm else (rm, []));
            rm2 = rm1\<lparr>url := Some u, isConnecting := True\<rparr>
        in if wsOk u
           then (rm2\<lparr>ws := Some CONNECTING\<rparr>,
                 out @ [NewWebSocket u, SetTimeout ConnectTimeout 5000])
           else (rm2\<lparr>isConnecting := False\<rparr>, out @ [Reject]))"

definition ws_onopen :: "RelayManager \<Rightarrow> RelayManager \<times> effect list" where
  "ws_onopen rm =
     (resubscribeAll (rm\<lparr>isConnecting := False, reconnectAttempts := 0\<rparr>), [Resolve])"

definition ws_onerror :: "RelayManager \<Rightarrow> RelayManager \<times> effect list" where
  "ws_onerror rm = (rm\<lparr>isConnecting := False\<rparr>, [Reject])"

definition ws_onclose :: "RelayManager \<Rightarrow> RelayManager \<times> effect list" where
  "ws_onclose rm = attemptReconnect (rm\<lparr>isConnecting := False\<rparr>)"

definition connect_timeout :: "RelayManager \<Rightarrow> RelayManager \<times> effect list" where
  "connect_timeout rm =
     (if ws rm \<noteq> Some OPEN
      then (case ws rm of
              Some st \<Rightarrow> (rm\<lparr>ws := Some (socket_close st)\<rparr>, [SocketClose, Reject])
            | None \<Rightarrow> (rm, [Reject]))
      else (rm, []))"

text \<open>
  The callback of the reconnect timer: \<^verbatim>\<open>if (this.url) this.connect(this.url).catch(log)\<close>.
  Here the promise that \<open>connect\<close> returns belongs to the callback, which logs its
  rejection.
\<close>

definition reconnect_timer :: "(string \<Rightarrow> bool) \<Rightarrow> RelayManager \<Rightarrow> RelayManager \<times> effect list"
  where
  "reconnect_timer wsOk rm =
     (case url rm of
        Some u \<Rightarrow> if u \<noteq> [] then connect wsOk u rm else (rm, [])
      | None \<Rightarrow> (rm, []))"

definition isConnected :: "RelayManager \<Rightarrow> bool" where
  "isConnected rm = (ws rm = Some OPEN)"

definition publish :: "event \<Rightarrow> RelayManager \<Rightarrow> js_error + effect list" where
  "publish ev rm = (if \<not> isConnected rm then Inl NotConnected else Inr [Send (EVENT ev)])"

text \<open>
  What happens to a manager: a call of one of its methods, an event of a socket, or a
  timer that fires. A socket event says whether the socket is the one \<^verbatim>\<open>this.ws\<close> holds
  (an earlier socket, dropped by \<open>disconnect\<close>, still delivers its \<^verbatim>\<open>close\<close> to the same
  handler). The browser changes the socket's \<^verbatim>\<open>readyState\<close> before it calls the handler.
  A socket opens only while it is connecting, so \<open>WsOpen\<close> does nothing in any other
  state.
\<close>

datatype relay_op =
  Connect string
| Disconnect
| WsOpen
| WsError bool
| WsClose bool
| ConnectTimeoutFires
| ReconnectTimerFires

fun relay_step ::
  "(string \<Rightarrow> bool) \<Rightarrow> RelayManager \<Rightarrow> relay_op \<Rightarrow> RelayManager \<times> effect list" where
  "relay_step wsOk rm (Connect u) = connect wsOk u rm"
| "relay_step wsOk rm Disconnect = disconnect rm"
| "relay_step wsOk rm WsOpen =
     (if ws rm = Some CONNECTING then ws_onopen (rm\<lparr>ws := Some OPEN\<rparr>) else (rm, []))"
| "relay_step wsOk rm (WsError current) = ws_onerror rm"
| "relay_step wsOk rm (WsClose current) =
     ws_onclose (if current \<and> ws rm \<noteq> None then rm\<lparr>ws := Some CLOSED\<rparr> else rm)"
| "relay_step wsOk rm ConnectTimeoutFires = connect_timeout rm"
| "relay_step wsOk rm ReconnectTimerFires = reconnect_timer wsOk rm"

fun relay_run ::
  "(string \<Rightarrow> bool) \<Rightarrow> RelayManager \<Rightarrow> relay_op list \<Rightarrow> RelayManager \<times> effect list" where
  "relay_run wsOk rm [] = (rm, [])"
| "relay_run wsOk rm (op # ops) =
     (let (rm1, out1) = relay_step wsOk rm op;
          (rm2, out2) = relay_run wsOk rm1 ops
      in (rm2, out1 @ out2))"

text \<open>The delays of the reconnect timers among some effects, in order.\<close>

fun reconnect_delays :: "effect list \<Rightarrow> nat list" where
  "reconnect_delays [] = []"
| "reconnect_delays (SetTimeout ReconnectTimer d # es) = d # reconnect_delays es"
| "reconnect_delays (e # es) = reconnect_delays es"

section \<open>ProfileFetcher\<close>

text \<open>
  \<open>timer\<close> is the pending flush timeout, as the time at which it is due; \<open>None\<close> when
  none is pending. Times are \<^verbatim>\<open>Date.now()\<close> in milliseconds. \<^verbatim>\<open>batchDelay\<close> and
  \<^verbatim>\<open>maxBatchSize\<close> are assigned once, in the constructor, and are constants here.
\<close>

record ProfileFetcher =
  queue :: "string list"
  inProgress :: "string list"
  timer :: "int option"

definition batchDelay :: int where
  "batchDelay = 500"

definition maxBatchSize :: nat where
  "maxBatchSize = 100"

definition new_ProfileFetcher :: ProfileFetcher where
  "new_ProfileFetcher = \<lparr> queue = [], inProgress = [], timer = None \<rparr>"

definition scheduleFlush :: "int \<Rightarrow> ProfileFetcher \<Rightarrow> ProfileFetcher" where
  "scheduleFlush now pf = pf\<lparr>timer := Some (now + batchDelay)\<rparr>"

definition request :: "int \<Rightarrow> DataStore \<Rightarrow> string \<Rightarrow> ProfileFetcher \<Rightarrow> ProfileFetcher" where
  "request now store pk pf =
     (if map_has (profiles store) pk then pf
      else if set_has (inProgress pf) pk then pf
      else scheduleFlush now (pf\<lparr>queue := set_add pk (queue pf)\<rparr>))"

definition requestMultiple ::
  "int \<Rightarrow> DataStore \<Rightarrow> string list \<Rightarrow> ProfileFetcher \<Rightarrow> ProfileFetcher" where
  "requestMultiple now store pubkeys pf = foldl (\<lambda>f pk. request now store pk f) pf pubkeys"

text \<open>Decimal digits of a number, for \<^verbatim>\<open>'profiles-' + Date.now()\<close>.\<close>

fun dec_string :: "nat \<Rightarrow> string" where
  "dec_string n =
     (if n < 10 then [char_of (48 + n)]
      else dec_string (n div 10) @ [char_of (48 + n mod 10)])"

text \<open>
  \<open>flush\<close> returns the fetcher, the relay manager and the frames sent. The subscription
  goes through \<open>subscribe\<close>, which sends nothing when the relay is not connected.
\<close>

definition flush ::
  "int \<Rightarrow> RelayManager \<Rightarrow> ProfileFetcher \<Rightarrow> ProfileFetcher \<times> RelayManager \<times> effect list" where
  "flush now rm pf =
     (if length (queue pf) = 0 then (pf, rm, [])
      else
        let pubkeys = take maxBatchSize (queue pf);
            pf1 = pf\<lparr>queue := []\<rparr>;
            pf2 = pf1\<lparr>inProgress := foldl (\<lambda>acc pk. set_add pk acc) (inProgress pf1) pubkeys\<rparr>;
            subId = ''profiles-'' @ dec_string (nat now);
            (ok, rm1, out) =
              subscribe subId [\<lparr>filter_kinds = [0], filter_authors = pubkeys\<rparr>]
                (ProfilesHandler subId pubkeys) rm
        in (pf2, rm1, out))"

text \<open>The flush timer fires: it is no longer pending, and its callback is \<open>flush\<close>.\<close>

definition flush_timer_fires ::
  "int \<Rightarrow> RelayManager \<Rightarrow> ProfileFetcher \<Rightarrow> ProfileFetcher \<times> RelayManager \<times> effect list" where
  "flush_timer_fires now rm pf =
     (case timer pf of
        None \<Rightarrow> (pf, rm, [])
      | Some due \<Rightarrow> if due \<le> now then flush now rm (pf\<lparr>timer := None\<rparr>) else (pf, rm, []))"

definition flushNow ::
  "int \<Rightarrow> RelayManager \<Rightarrow> ProfileFetcher \<Rightarrow> ProfileFetcher \<times> RelayManager \<times> effect list" where
  "flushNow now rm pf = flush now rm (pf\<lparr>timer := None\<rparr>)"

section \<open>ViewState\<close>

text \<open>
  \<open>renderTimer\<close> is the pending render timeout, as the time at which it is due. The call
  of \<^verbatim>\<open>window.timeline.refresh()\<close> that a render makes belongs to the render surface and
  is left out.
\<close>

record ViewState =
  visibleEventIds :: "string list tabs"
  pendingEventIds :: "string list"
  renderTimer :: "int option"

definition renderDelay :: int where
  "renderDelay = 300"

definition new_ViewState :: ViewState where
  "new_ViewState =
     \<lparr> visibleEventIds = \<lparr> global = [], following = [], myposts = [], likes = [] \<rparr>,
       pendingEventIds = [], renderTimer = None \<rparr>"

text \<open>\<^verbatim>\<open>obj[tab]\<close> on an object with the four tab fields: \<^verbatim>\<open>undefined\<close> for another name.\<close>

definition tab_get :: "'a tabs \<Rightarrow> string \<Rightarrow> 'a option" where
  "tab_get t tab =
     (if tab = ''global'' then Some (global t)
      else if tab = ''following'' then Some (following t)
      else if tab = ''myposts'' then Some (myposts t)
      else if tab = ''likes'' then Some (likes t)
      else None)"

definition tab_map :: "('a \<Rightarrow> 'a) \<Rightarrow> string \<Rightarrow> 'a tabs \<Rightarrow> 'a tabs" where
  "tab_map f tab t =
     (if tab = ''global'' then t\<lparr>global := f (global t)\<rparr>
      else if tab = ''following'' then t\<lparr>following := f (following t)\<rparr>
      else if tab = ''myposts'' then t\<lparr>myposts := f (myposts t)\<rparr>
      else if tab = ''likes'' then t\<lparr>likes := f (likes t)\<rparr>
      else t)"

definition determineTargetTabs :: "event \<Rightarrow> jsval \<Rightarrow> DataStore \<Rightarrow> string list" where
  "determineTargetTabs ev myPubkey store =
     (if kind ev = 1 \<or> kind ev = 6 then [''global''] else []) @
     (if (kind ev = 1 \<or> kind ev = 6) \<and> set_has (followingPubkeys store) (pubkey ev)
      then [''following''] else []) @
     (if kind ev = 1 \<and> JsString (pubkey ev) = myPubkey then [''myposts''] else []) @
     (if kind ev = 7 \<and> of_opt (first_tag_value ''p'' (tags ev)) = myPubkey
      then [''likes''] else [])"

text \<open>
  The environment of a call: the time, \<^verbatim>\<open>window.app?.isAutoUpdate\<close> and
  \<^verbatim>\<open>window.nostrAuth?.pubkey\<close>.
\<close>

record env =
  env_now :: int
  isAutoUpdate :: bool
  env_myPubkey :: jsval

definition scheduleRender :: "env \<Rightarrow> ViewState \<Rightarrow> ViewState" where
  "scheduleRender e v =
     (if \<not> isAutoUpdate e then v else v\<lparr>renderTimer := Some (env_now e + renderDelay)\<rparr>)"

definition renderNow :: "ViewState \<Rightarrow> ViewState" where
  "renderNow v = v\<lparr>renderTimer := None\<rparr>"

definition switchTab :: "string \<Rightarrow> ViewState \<Rightarrow> ViewState" where
  "switchTab newTab v = renderNow v"

text \<open>
  The three singletons \<^verbatim>\<open>window.dataStore\<close>, \<^verbatim>\<open>window.viewState\<close> and
  \<^verbatim>\<open>window.profileFetcher\<close>, which the methods of \<open>ViewState\<close> read and change.
\<close>

record system =
  store :: DataStore
  view :: ViewState
  fetcher :: ProfileFetcher

definition new_system :: "int \<Rightarrow> system" where
  "new_system t = \<lparr> store = new_DataStore t, view = new_ViewState, fetcher = new_ProfileFetcher \<rparr>"

definition view_addEvent :: "env \<Rightarrow> event \<Rightarrow> string \<Rightarrow> system \<Rightarrow> system" where
  "view_addEvent e ev currentTab sys =
     (let targetTabs = determineTargetTabs ev (env_myPubkey e) (store sys);
          v1 = (view sys)\<lparr>visibleEventIds :=
                  foldl (\<lambda>t tab. tab_map (set_add (event_id ev)) tab t)
                    (visibleEventIds (view sys)) targetTabs\<rparr>;
          sys1 = sys\<lparr>view := v1\<rparr>;
          sys2 = (if \<not> map_has (profiles (store sys1)) (pubkey ev)
                  then sys1\<lparr>view := v1\<lparr>pendingEventIds := set_add (event_id ev) (pendingEventIds v1)\<rparr>,
                            fetcher := request (env_now e) (store sys1) (pubkey ev) (fetcher sys1)\<rparr>
                  else sys1)
      in if currentTab \<in> set targetTabs
         then sys2\<lparr>view := scheduleRender e (view sys2)\<rparr>
         else sys2)"

definition onProfileFetched :: "env \<Rightarrow> string \<Rightarrow> system \<Rightarrow> system" where
  "onProfileFetched e pk sys =
     (let eventsToRemove =
            filter (\<lambda>eventId. case map_get (events (store sys)) eventId of
                                 Some ev \<Rightarrow> pubkey ev = pk
                               | None \<Rightarrow> False)
              (pendingEventIds (view sys));
          v1 = (view sys)\<lparr>pendingEventIds :=
                  foldl (\<lambda>p i. set_delete i p) (pendingEventIds (view sys)) eventsToRemove\<rparr>
      in sys\<lparr>view := (if length eventsToRemove > 0 then scheduleRender e v1 else v1)\<rparr>)"

definition getVisibleEvents ::
  "string \<Rightarrow> filterOptions \<Rightarrow> system \<Rightarrow> js_error + event list" where
  "getVisibleEvents tab opts sys =
     (case tab_get (visibleEventIds (view sys)) tab of
        None \<Rightarrow> Inl TypeError
      | Some eventIds \<Rightarrow>
          let evs = lookup_events (events (store sys)) eventIds;
              evs1 = (if flowgazerOnly opts \<and> tab \<noteq> ''likes''
                      then filter (\<lambda>ev. kind ev = 1 \<and> is_flowgazer ev) evs else evs);
              evs2 = (case authors opts of
                        Some as \<Rightarrow>
                          if length as > 0 then filter (\<lambda>ev. pubkey ev \<in> set as) evs1 else evs1
                      | None \<Rightarrow> evs1);
              evs3 = filter (\<lambda>ev. map_has (profiles (store sys)) (pubkey ev)) evs2
          in Inr (js_sort by_created_at_desc evs3))"

text \<open>The calls on the store and on the view state, and their effect in sequence.\<close>

datatype sys_op =
  Store store_op
| ViewAddEvent env event string
| OnProfileFetched env string
| ScheduleRender env
| RenderNow
| SwitchTab string
| RequestProfile int string

fun sys_step :: "(event \<Rightarrow> bool) \<Rightarrow> system \<Rightarrow> sys_op \<Rightarrow> system" where
  "sys_step verifyEvent sys (Store op) = sys\<lparr>store := store_step verifyEvent (store sys) op\<rparr>"
| "sys_step verifyEvent sys (ViewAddEvent e ev currentTab) = view_addEvent e ev currentTab sys"
| "sys_step verifyEvent sys (OnProfileFetched e pk) = onProfileFetched e pk sys"
| "sys_step verifyEvent sys (ScheduleRender e) = sys\<lparr>view := scheduleRender e (view sys)\<rparr>"
| "sys_step verifyEvent sys RenderNow = sys\<lparr>view := renderNow (view sys)\<rparr>"
| "sys_step verifyEvent sys (SwitchTab tab) = sys\<lparr>view := switchTab tab (view sys)\<rparr>"
| "sys_step verifyEvent sys (RequestProfile t pk) =
     sys\<lparr>fetcher := request t (store sys) pk (fetcher sys)\<rparr>"

definition sys_run :: "(event \<Rightarrow> bool) \<Rightarrow> int \<Rightarrow> sys_op list \<Rightarrow> system" where
  "sys_run verifyEvent t ops = foldl (sys_step verifyEvent) (new_system t) ops"

section \<open>Predicates used in the statements\<close>

text \<open>
  \<open>counted_target s t\<close>: the events table holds a kind-6 or kind-7 event whose first
  \<^verbatim>\<open>e\<close>-tag carries \<open>t\<close>.
\<close>

definition counted_target :: "DataStore \<Rightarrow> string \<Rightarrow> bool" where
  "counted_target s t =
     (\<exists>e \<in> snd ` set (events s).
        (kind e = 6 \<or> kind e = 7) \<and> first_tag_value ''e'' (tags e) = Some t)"

definition counts_inv :: "DataStore \<Rightarrow> bool" where
  "counts_inv s = (\<forall>t. map_has (reactionCounts s) t \<longrightarrow> counted_target s t)"

definition all_verified :: "(event \<Rightarrow> bool) \<Rightarrow> DataStore \<Rightarrow> bool" where
  "all_verified v s = list_all (\<lambda>(k, e). v e) (events s)"

text \<open>
  What holds of the events table and the two id sets of every store that calls can
  reach: ids are stored once, each event is stored under its own id, and the sets
  \<^verbatim>\<open>myPostIds\<close> and \<^verbatim>\<open>receivedLikeIds\<close> list ids of stored events in the order of their
  insertion into the table.
\<close>

definition store_inv :: "DataStore \<Rightarrow> bool" where
  "store_inv s =
     (distinct (map fst (events s)) \<and>
      list_all (\<lambda>(k, e). event_id e = k) (events s) \<and>
      subseq (myPostIds s) (map fst (events s)) \<and>
      subseq (receivedLikeIds s) (map fst (events s)))"

text \<open>
  A \<^verbatim>\<open>Set\<close> holds an element once: so does each list of \<^verbatim>\<open>visibleEventIds\<close>.
\<close>

definition tabs_distinct :: "string list tabs \<Rightarrow> bool" where
  "tabs_distinct t =
     (distinct (global t) \<and> distinct (following t) \<and> distinct (myposts t) \<and> distinct (likes t))"

definition sys_inv :: "system \<Rightarrow> bool" where
  "sys_inv sys = (store_inv (store sys) \<and> tabs_distinct (visibleEventIds (view sys)))"

text \<open>
  The socket's \<^verbatim>\<open>close\<close> events, and the operations that call \<open>connect\<close>.
\<close>

definition is_close :: "relay_op \<Rightarrow> bool" where
  "is_close op = (case op of WsClose c \<Rightarrow> True | _ \<Rightarrow> False)"

definition calls_connect :: "relay_op \<Rightarrow> bool" where
  "calls_connect op = (case op of Connect u \<Rightarrow> True | ReconnectTimerFires \<Rightarrow> True | _ \<Rightarrow> False)"

text \<open>
  The delay of the reconnect attempt with a given number, and the delays that remain to
  be scheduled when the attempt counter is \<open>n\<close>.
\<close>

definition backoff_delay :: "nat \<Rightarrow> nat" where
  "backoff_delay attempt = min (1000 * 2 ^ attempt) 10000"

definition backoff :: "nat \<Rightarrow> nat list" where
  "backoff n = map backoff_delay [Suc n ..< Suc maxReconnectAttempts]"

section \<open>Example inputs\<close>

text \<open>A stand-in verifier, and events and profiles to evaluate the functions on.\<close>

definition sig_ok :: "event \<Rightarrow> bool" where
  "sig_ok e = (sig e = ''ok'')"

definition bad_event :: event where
  "bad_event = \<lparr> event_id = ''e1'', pubkey = ''alice'', created_at = 10, kind = 1,
     tags = [], content = ''hello'', sig = ''forged'' \<rparr>"

definition good_event :: event where
  "good_event = \<lparr> event_id = ''e1'', pubkey = ''alice'', created_at = 10, kind = 1,
     tags = [], content = ''hello'', sig = ''ok'' \<rparr>"

definition like_event :: event where
  "like_event = \<lparr> event_id = ''e2'', pubkey = ''bob'', created_at = 11, kind = 7,
     tags = [[''e'', ''e1''], [''p'', ''alice'']], content = ''+'', sig = ''ok'' \<rparr>"

definition old_profile :: profile where
  "old_profile = \<lparr> profile_fields = [(''name'', ''Alice'')], profile_created_at = 5 \<rparr>"

definition new_profile :: profile where
  "new_profile = \<lparr> profile_fields = [(''name'', ''Alice B'')], profile_created_at = 9 \<rparr>"

text \<open>
  Two notes of one author with the same \<open>created_at\<close>, and runs of the store and the view
  state: the notes added to the view in the other order than to the store; an event added
  to the store and the view before its author's profile is stored, and after.
\<close>

definition note_a :: event where
  "note_a = \<lparr> event_id = ''a1'', pubkey = ''alice'', created_at = 10, kind = 1,
     tags = [], content = ''first'', sig = ''ok'' \<rparr>"

definition note_b :: event where
  "note_b = \<lparr> event_id = ''b1'', pubkey = ''alice'', created_at = 10, kind = 1,
     tags = [], content = ''second'', sig = ''ok'' \<rparr>"

definition env0 :: env where
  "env0 = \<lparr> env_now = 0, isAutoUpdate = True, env_myPubkey = JsNull \<rparr>"

definition ops_reordered :: "sys_op list" where
  "ops_reordered =
     [Store (AddEvent JsNull note_a), Store (AddEvent JsNull note_b),
      Store (AddProfile ''alice'' old_profile),
      ViewAddEvent env0 note_b ''global'', ViewAddEvent env0 note_a ''global'']"

definition ops_pending :: "sys_op list" where
  "ops_pending =
     [Store (AddEvent JsNull good_event), ViewAddEvent env0 good_event ''global'']"

definition ops_arrived :: "sys_op list" where
  "ops_arrived = ops_pending @ [Store (AddProfile ''alice'' old_profile)]"

text \<open>
  Runs of the relay manager: a connection that is established; its drop, followed by
  three reconnect attempts that fail and two more close events; all of that followed by a
  new call of \<open>connect\<close>; a first handshake that fails with an error, and one that runs
  into the timeout.
\<close>

definition any_url_ok :: "string \<Rightarrow> bool" where
  "any_url_ok u = True"

definition relay_url :: string where
  "relay_url = ''wss://relay.example''"

definition ops_established :: "relay_op list" where
  "ops_established = [Connect relay_url, WsOpen]"

definition ops_dropped :: "relay_op list" where
  "ops_dropped =
     [WsClose True, ReconnectTimerFires, WsError True, WsClose True,
      ReconnectTimerFires, WsError True, WsClose True,
      ReconnectTimerFires, WsError True, WsClose True,
      WsClose False]"

definition ops_reconnected :: "relay_op list" where
  "ops_reconnected = ops_established @ ops_dropped @ [Connect relay_url]"

definition ops_handshake_error :: "relay_op list" where
  "ops_handshake_error = [Connect relay_url, WsError True, WsClose True]"

definition ops_handshake_timeout :: "relay_op list" where
  "ops_handshake_timeout = [Connect relay_url, ConnectTimeoutFires, WsClose True]"

text \<open>
  150 distinct keys, a connected relay manager, and the fetcher after the keys were
  requested at time 0.
\<close>

definition keys150 :: "string list" where
  "keys150 = map (\<lambda>n. replicate (Suc n) CHR ''k'') [0..<150]"

definition rm_connected :: RelayManager where
  "rm_connected = fst (relay_run any_url_ok new_RelayManager ops_established)"

definition fetcher150 :: ProfileFetcher where
  "fetcher150 = requestMultiple 0 (new_DataStore 0) keys150 new_ProfileFetcher"

section \<open>Lemmas on the containers\<close>

lemma map_has_set [simp]: "map_has (map_set k v m) k' = (k' = k \<or> map_has m k')"
  by (simp add: map_has_def map_set_def update_conv')

lemma map_get_set [simp]: "map_get (map_set k v m) k' = (if k' = k then Some v else map_get m k')"
  by (simp add: map_get_def map_set_def update_conv')

lemma map_has_get: "map_has m k = (map_get m k \<noteq> None)"
  by (simp add: map_has_def map_get_def)

lemma map_set_fresh: "\<not> map_has m k \<Longrightarrow> map_set k v m = m @ [(k, v)]"
  by (induction m) (auto simp: map_has_def map_set_def)

lemma length_map_set:
  "length (map_set k v m) = (if map_has m k then length m else Suc (length m))"
  by (induction m) (auto simp: map_has_def map_set_def)

section \<open>Lemmas on the store\<close>

lemma events_updateReactionCount [simp]: "events (updateReactionCount ev s) = events s"
  by (simp add: updateReactionCount_def Let_def split: option.splits)

lemma events_categorizeEvent [simp]: "events (categorizeEvent my ev s) = events s"
  by (simp add: categorizeEvent_def Let_def split: option.splits)

lemma events_updateOldestTimestamps [simp]: "events (updateOldestTimestamps my ev s) = events s"
  by (simp add: updateOldestTimestamps_def Let_def)

lemma events_addEvent:
  "events (snd (addEvent v my ev s)) =
     (if map_has (events s) (event_id ev) \<or> \<not> v ev then events s
      else events s @ [(event_id ev, ev)])"
  by (simp add: addEvent_def map_set_fresh)

lemma reactionCounts_updateOldestTimestamps [simp]:
  "reactionCounts (updateOldestTimestamps my ev s) = reactionCounts s"
  by (simp add: updateOldestTimestamps_def Let_def)

lemma has_reactionCounts_updateReactionCount:
  "map_has (reactionCounts (updateReactionCount ev s)) t \<Longrightarrow>
     map_has (reactionCounts s) t \<or> first_tag_value ''e'' (tags ev) = Some t"
  by (auto simp: updateReactionCount_def Let_def split: option.splits if_splits)

lemma has_reactionCounts_categorizeEvent:
  "map_has (reactionCounts (categorizeEvent my ev s)) t \<Longrightarrow>
     map_has (reactionCounts s) t \<or>
     ((kind ev = 6 \<or> kind ev = 7) \<and> first_tag_value ''e'' (tags ev) = Some t)"
  by (auto simp: categorizeEvent_def Let_def split: option.splits if_splits
      dest!: has_reactionCounts_updateReactionCount)

lemma counts_inv_new: "counts_inv (new_DataStore now)"
  by (simp add: counts_inv_def new_DataStore_def map_has_def)

lemma counts_inv_addEvent: "counts_inv s \<Longrightarrow> counts_inv (snd (addEvent v my ev s))"
  unfolding counts_inv_def counted_target_def
  apply (clarsimp simp: addEvent_def map_set_fresh)
  apply (drule has_reactionCounts_categorizeEvent)
  apply auto
  done

lemma counts_inv_step: "counts_inv s \<Longrightarrow> counts_inv (store_step v s op)"
proof (cases op)
  case (AddEvent my ev)
  assume "counts_inv s"
  then show ?thesis using AddEvent by (simp add: counts_inv_addEvent)
next
  case (AddProfile pk p)
  assume "counts_inv s"
  then show ?thesis using AddProfile
    by (auto simp: counts_inv_def counted_target_def addProfile_def split: option.splits)
next
  case (SetFollowingList pks)
  assume "counts_inv s"
  then show ?thesis using SetFollowingList
    by (simp add: counts_inv_def counted_target_def setFollowingList_def)
next
  case (Clear now)
  then show ?thesis by (simp add: clear_def counts_inv_new)
qed

lemma counts_inv_foldl: "counts_inv s \<Longrightarrow> counts_inv (foldl (store_step v) s ops)"
  by (induction ops arbitrary: s) (simp_all add: counts_inv_step)

lemma counts_inv_run: "counts_inv (store_run v now ops)"
  by (simp add: store_run_def counts_inv_foldl counts_inv_new)

lemma all_verified_step: "all_verified v s \<Longrightarrow> all_verified v (store_step v s op)"
  by (cases op)
     (auto simp: all_verified_def events_addEvent addProfile_def setFollowingList_def
        clear_def new_DataStore_def split: option.splits)

lemma all_verified_foldl: "all_verified v s \<Longrightarrow> all_verified v (foldl (store_step v) s ops)"
  by (induction ops arbitrary: s) (simp_all add: all_verified_step)

lemma all_verified_run: "all_verified v (store_run v now ops)"
  unfolding store_run_def
  by (rule all_verified_foldl) (simp add: all_verified_def new_DataStore_def)

lemma like_run:
  "store_run sig_ok 0 [AddEvent JsNull good_event, AddEvent JsNull like_event] =
     \<lparr> events = [(''e1'', good_event), (''e2'', like_event)], profiles = [], myPostIds = [],
       receivedLikeIds = [], followingPubkeys = [], likedByMeIds = [],
       reactionCounts = [(''e1'', \<lparr>reposts = 0, reactions = 1\<rparr>)],
       oldestTimestamps = \<lparr> global = 0, following = 0, myposts = 0, likes = 0 \<rparr> \<rparr>"
  by (simp add: store_run_def addEvent_def new_DataStore_def sig_ok_def good_event_def
      like_event_def categorizeEvent_def updateOldestTimestamps_def updateReactionCount_def
      first_tag_value_def tag_at_def map_has_def map_get_def map_set_def set_has_def Let_def)

section \<open>Lemmas on sorting and on looking events up\<close>

lemma insort_cmp_insort_key:
  "insort_cmp by_created_at_desc x ys = insort_key (\<lambda>e. - created_at e) x ys"
  by (induction ys) (auto simp: by_created_at_desc_def)

lemma js_sort_sort_key: "js_sort by_created_at_desc xs = sort_key (\<lambda>e. - created_at e) xs"
  by (induction xs) (simp_all add: js_sort_def sort_key_def insort_cmp_insort_key)

lemma js_sort_sorted:
  "sorted_wrt (\<lambda>a b. created_at a \<ge> created_at b) (js_sort by_created_at_desc xs)"
proof -
  have "sorted (map (\<lambda>e. - created_at e) (sort_key (\<lambda>e. - created_at e) xs))"
    by (rule sorted_sort_key)
  then show ?thesis
    by (simp add: js_sort_sort_key sorted_map sorted_wrt_iff_nth_less)
qed

lemma js_sort_stable:
  "filter (\<lambda>e. created_at e = t) (js_sort by_created_at_desc xs) = filter (\<lambda>e. created_at e = t) xs"
  using sort_key_stable [of "\<lambda>e. - created_at e" "- t" xs]
  by (simp add: js_sort_sort_key)

lemma set_js_sort [simp]: "set (js_sort by_created_at_desc xs) = set xs"
  by (simp add: js_sort_sort_key)

lemma distinct_js_sort [simp]: "distinct (js_sort by_created_at_desc xs) = distinct xs"
  by (simp add: js_sort_sort_key)

lemma lookup_events_Nil [simp]: "lookup_events m [] = []"
  by (simp add: lookup_events_def map_filter_simps)

lemma lookup_events_Cons:
  "lookup_events m (i # ids) =
     (case map_get m i of None \<Rightarrow> lookup_events m ids | Some e \<Rightarrow> e # lookup_events m ids)"
  by (simp add: lookup_events_def map_filter_simps split: option.splits)

lemma set_lookup_events:
  "set (lookup_events m ids) = {e. \<exists>i \<in> set ids. map_get m i = Some e}"
  by (induction ids) (auto simp: lookup_events_Cons split: option.splits)

lemma lookup_events_skip:
  "k \<notin> set ids \<Longrightarrow> lookup_events ((k, v) # m) ids = lookup_events m ids"
  by (induction ids) (auto simp: lookup_events_Cons map_get_def split: option.splits)

lemma sub_keys: "subseq ids (map fst m) \<Longrightarrow> set ids \<subseteq> fst ` set m"
  by (auto elim!: list_emb_set [where xs = ids and ys = "map fst m"])

lemma subseq_lookup_events:
  "distinct (map fst m) \<Longrightarrow> subseq ids (map fst m) \<Longrightarrow> subseq (lookup_events m ids) (map snd m)"
proof (induction m arbitrary: ids)
  case Nil
  then show ?case by (cases ids) simp_all
next
  case (Cons p m)
  obtain k v where p: "p = (k, v)" by (cases p)
  have kfresh: "k \<notin> fst ` set m" using Cons.prems(1) p by simp
  show ?case
  proof (cases ids)
    case Nil
    then show ?thesis by simp
  next
    case (Cons i ids')
    show ?thesis
    proof (cases "i = k")
      case True
      have "subseq ids' (map fst m)"
        using Cons.prems(2) p Cons True by simp
      moreover from this have "k \<notin> set ids'"
        using kfresh sub_keys by fastforce
      ultimately show ?thesis
        using Cons.IH [of ids'] Cons.prems(1) p Cons True
        by (simp add: lookup_events_Cons map_get_def lookup_events_skip)
    next
      case False
      have s: "subseq ids (map fst m)"
        using Cons.prems(2) p Cons False by (simp add: subseq_Cons2_neq)
      then have "k \<notin> set ids"
        using kfresh sub_keys by fastforce
      then show ?thesis
        using Cons.IH [OF _ s] Cons.prems(1) p
        by (simp add: lookup_events_skip list_emb_Cons)
    qed
  qed
qed

section \<open>Invariants of the store\<close>

lemma myPostIds_updateReactionCount [simp]: "myPostIds (updateReactionCount ev s) = myPostIds s"
  by (simp add: updateReactionCount_def Let_def split: option.splits)

lemma receivedLikeIds_updateReactionCount [simp]:
  "receivedLikeIds (updateReactionCount ev s) = receivedLikeIds s"
  by (simp add: updateReactionCount_def Let_def split: option.splits)

lemma myPostIds_categorizeEvent:
  "myPostIds (categorizeEvent my ev s) = myPostIds s \<or>
   myPostIds (categorizeEvent my ev s) = set_add (event_id ev) (myPostIds s)"
  by (simp add: categorizeEvent_def Let_def split: option.splits)

lemma receivedLikeIds_categorizeEvent:
  "receivedLikeIds (categorizeEvent my ev s) = receivedLikeIds s \<or>
   receivedLikeIds (categorizeEvent my ev s) = set_add (event_id ev) (receivedLikeIds s)"
  by (simp add: categorizeEvent_def Let_def split: option.splits)

lemma myPostIds_updateOldestTimestamps [simp]:
  "myPostIds (updateOldestTimestamps my ev s) = myPostIds s"
  by (simp add: updateOldestTimestamps_def Let_def)

lemma receivedLikeIds_updateOldestTimestamps [simp]:
  "receivedLikeIds (updateOldestTimestamps my ev s) = receivedLikeIds s"
  by (simp add: updateOldestTimestamps_def Let_def)

lemma subseq_set_add: "subseq xs ks \<Longrightarrow> subseq (set_add i xs) (ks @ [i])"
  by (simp add: set_add_def subseq_rev_drop_many)

lemma subseq_snoc: "subseq xs ks \<Longrightarrow> subseq xs (ks @ [i])"
  by (simp add: subseq_rev_drop_many)

lemma map_has_keys: "map_has m k = (k \<in> fst ` set m)"
  by (simp add: map_has_def map_of_eq_None_iff)

lemma store_inv_addEvent: "store_inv s \<Longrightarrow> store_inv (snd (addEvent v my ev s))"
proof (cases "map_has (events s) (event_id ev) \<or> \<not> v ev")
  case True
  assume "store_inv s"
  then show ?thesis using True by (auto simp: addEvent_def)
next
  case False
  assume inv: "store_inv s"
  let ?s0 = "s\<lparr>events := map_set (event_id ev) ev (events s)\<rparr>"
  let ?s1 = "categorizeEvent my ev ?s0"
  have ev: "events (snd (addEvent v my ev s)) = events s @ [(event_id ev, ev)]"
    using False by (simp add: events_addEvent)
  have mp: "myPostIds (snd (addEvent v my ev s)) = myPostIds ?s1"
    and rl: "receivedLikeIds (snd (addEvent v my ev s)) = receivedLikeIds ?s1"
    using False by (simp_all add: addEvent_def)
  have "subseq (myPostIds ?s1) (map fst (events s) @ [event_id ev])"
    using myPostIds_categorizeEvent [of my ev ?s0] inv
    by (auto simp: store_inv_def subseq_set_add subseq_snoc)
  moreover have "subseq (receivedLikeIds ?s1) (map fst (events s) @ [event_id ev])"
    using receivedLikeIds_categorizeEvent [of my ev ?s0] inv
    by (auto simp: store_inv_def subseq_set_add subseq_snoc)
  ultimately show ?thesis
    using inv False unfolding store_inv_def ev mp rl
    by (simp add: map_has_keys)
qed

lemma store_inv_new: "store_inv (new_DataStore t)"
  by (simp add: store_inv_def new_DataStore_def)

lemma store_inv_step: "store_inv s \<Longrightarrow> store_inv (store_step v s op)"
proof (cases op)
  case (AddEvent my ev)
  assume "store_inv s"
  then show ?thesis using AddEvent by (simp add: store_inv_addEvent)
next
  case (AddProfile pk p)
  assume "store_inv s"
  then show ?thesis using AddProfile
    by (auto simp: store_inv_def addProfile_def split: option.splits)
next
  case (SetFollowingList pks)
  assume "store_inv s"
  then show ?thesis using SetFollowingList
    by (simp add: store_inv_def setFollowingList_def)
next
  case (Clear t)
  then show ?thesis by (simp add: clear_def store_inv_new)
qed

lemma store_inv_foldl: "store_inv s \<Longrightarrow> store_inv (foldl (store_step v) s ops)"
  by (induction ops arbitrary: s) (simp_all add: store_inv_step)

lemma store_inv_run: "store_inv (store_run v t ops)"
  by (simp add: store_run_def store_inv_foldl store_inv_new)

lemma filter_ids_subseq: "filter_ids P m ids = Inr r \<Longrightarrow> subseq r ids"
  by (induction ids arbitrary: r) (auto split: option.splits sum.splits if_splits)

lemma filter_ids_total:
  "set ids \<subseteq> fst ` set m \<Longrightarrow> \<exists>r. filter_ids P m ids = Inr r"
proof (induction ids)
  case Nil
  then show ?case by simp
next
  case (Cons i ids)
  then obtain r where "filter_ids P m ids = Inr r" by auto
  moreover have "map_get m i \<noteq> None"
    using Cons.prems by (simp add: map_get_def map_of_eq_None_iff)
  ultimately show ?case by (auto split: option.splits)
qed

lemma getEventsByTab_presort:
  assumes "store_inv s" and "getEventsByTab tab opts s = Inr r"
  shows "\<exists>ids. subseq ids (map fst (events s)) \<and>
           r = js_sort by_created_at_desc (lookup_events (events s) ids)"
proof -
  have keys: "subseq (myPostIds s) (map fst (events s))"
             "subseq (receivedLikeIds s) (map fst (events s))"
    using assms(1) by (simp_all add: store_inv_def)
  show ?thesis
  proof (cases "tab = ''global'' \<or> tab = ''following'' \<or> tab = ''myposts'' \<or> tab = ''likes''")
    case True
    then show ?thesis
      using assms(2) keys
      unfolding getEventsByTab_def Let_def map_keys_def
      by (auto split: if_splits sum.splits option.splits
          dest!: filter_ids_subseq intro: subseq_order.trans)
  next
    case False
    then have "r = []"
      using assms(2) by (simp add: getEventsByTab_def)
    then have "subseq [] (map fst (events s)) \<and>
               r = js_sort by_created_at_desc (lookup_events (events s) [])"
      by (simp add: js_sort_def)
    then show ?thesis by blast
  qed
qed

lemma subseq_set: "subseq xs ys \<Longrightarrow> set xs \<subseteq> set ys"
  by (induction rule: list_emb.induct) auto

lemma filter_ids_keys:
  "filter_ids P m ids = Inr r \<Longrightarrow> set ids \<subseteq> fst ` set m \<Longrightarrow> set r \<subseteq> fst ` set m"
  using filter_ids_subseq subseq_set by blast

lemma getEventsByTab_total:
  assumes "store_inv s"
  shows "\<exists>r. getEventsByTab tab opts s = Inr r"
proof -
  let ?m = "events s"
  have k1: "set (myPostIds s) \<subseteq> fst ` set ?m"
    and k2: "set (receivedLikeIds s) \<subseteq> fst ` set ?m"
    using assms by (auto simp: store_inv_def dest: sub_keys)
  have first: "\<And>P. \<exists>r. filter_ids P ?m (map fst ?m) = Inr r \<and> set r \<subseteq> fst ` set ?m"
  proof -
    fix P
    obtain r where r: "filter_ids P ?m (map fst ?m) = Inr r"
      using filter_ids_total [of "map fst ?m" ?m P] by auto
    then have "set r \<subseteq> fst ` set ?m"
      using filter_ids_keys [OF r] by simp
    then show "\<exists>r. filter_ids P ?m (map fst ?m) = Inr r \<and> set r \<subseteq> fst ` set ?m"
      using r by blast
  qed
  consider (g) "tab = ''global''" | (f) "tab = ''following''" | (m) "tab = ''myposts''"
    | (l) "tab = ''likes''"
    | (o) "tab \<noteq> ''global''" "tab \<noteq> ''following''" "tab \<noteq> ''myposts''" "tab \<noteq> ''likes''"
    by blast
  then show ?thesis
  proof cases
    case g
    obtain r where r: "filter_ids (\<lambda>ev. kind ev = 1 \<or> kind ev = 6) ?m (map fst ?m) = Inr r"
      "set r \<subseteq> fst ` set ?m"
      using first by blast
    obtain r2 where "filter_ids (\<lambda>ev. kind ev = 1 \<and> is_flowgazer ev) ?m r = Inr r2"
      using filter_ids_total [OF r(2)] by blast
    then show ?thesis
      using g r(1) by (simp add: getEventsByTab_def map_keys_def)
  next
    case f
    obtain r where r: "filter_ids (\<lambda>ev. (kind ev = 1 \<or> kind ev = 6) \<and>
          set_has (followingPubkeys s) (pubkey ev)) ?m (map fst ?m) = Inr r"
      "set r \<subseteq> fst ` set ?m"
      using first by blast
    obtain r2 where "filter_ids (\<lambda>ev. kind ev = 1 \<and> is_flowgazer ev) ?m r = Inr r2"
      using filter_ids_total [OF r(2)] by blast
    then show ?thesis
      using f r(1) by (simp add: getEventsByTab_def map_keys_def)
  next
    case m
    obtain r2 where "filter_ids (\<lambda>ev. kind ev = 1 \<and> is_flowgazer ev) ?m (myPostIds s) = Inr r2"
      using filter_ids_total [OF k1] by blast
    then show ?thesis
      using m by (simp add: getEventsByTab_def map_keys_def)
  next
    case l
    obtain r2 where "filter_ids (\<lambda>ev. kind ev = 1 \<and> is_flowgazer ev) ?m (receivedLikeIds s) = Inr r2"
      using filter_ids_total [OF k2] by blast
    then show ?thesis
      using l by (simp add: getEventsByTab_def map_keys_def)
  next
    case o
    then show ?thesis by (simp add: getEventsByTab_def)
  qed
qed

lemma filter_ids_mem:
  "filter_ids P m ids = Inr r \<Longrightarrow>
     (i \<in> set r) = (i \<in> set ids \<and> (\<exists>ev. map_get m i = Some ev \<and> P ev))"
proof (induction ids arbitrary: r)
  case Nil
  then show ?case by simp
next
  case (Cons j ids)
  then obtain ev r' where j: "map_get m j = Some ev" and r': "filter_ids P m ids = Inr r'"
    and r: "r = (if P ev then j # r' else r')"
    by (auto split: option.splits sum.splits)
  show ?case
    using Cons.IH [OF r'] j r by auto
qed

lemma subseq_distinct_keys: "subseq xs ys \<Longrightarrow> distinct ys \<Longrightarrow> distinct xs"
  by (induction rule: list_emb.induct) (auto dest: subseq_set)

lemma getEventsByTab_profiles:
  "getEventsByTab tab opts (s\<lparr>profiles := p\<rparr>) = getEventsByTab tab opts s"
  by (simp add: getEventsByTab_def cong: sum.case_cong option.case_cong if_cong)

section \<open>Invariants of the store with the view state\<close>

lemma distinct_set_add: "distinct xs \<Longrightarrow> distinct (set_add x xs)"
  by (simp add: set_add_def)

lemma tabs_distinct_tab_map:
  "tabs_distinct t \<Longrightarrow> tabs_distinct (tab_map (set_add i) tab t)"
  by (simp add: tabs_distinct_def tab_map_def distinct_set_add)

lemma tabs_distinct_foldl:
  "tabs_distinct t \<Longrightarrow> tabs_distinct (foldl (\<lambda>t tab. tab_map (set_add i) tab t) t tabs)"
  by (induction tabs arbitrary: t) (simp_all add: tabs_distinct_tab_map)

lemma visibleEventIds_scheduleRender [simp]:
  "visibleEventIds (scheduleRender e v) = visibleEventIds v"
  by (simp add: scheduleRender_def)

lemma pendingEventIds_scheduleRender [simp]:
  "pendingEventIds (scheduleRender e v) = pendingEventIds v"
  by (simp add: scheduleRender_def)

lemma store_view_addEvent [simp]: "store (view_addEvent e ev tab sys) = store sys"
  by (simp add: view_addEvent_def Let_def)

lemma visibleEventIds_view_addEvent:
  "visibleEventIds (view (view_addEvent e ev tab sys)) =
     foldl (\<lambda>t tab. tab_map (set_add (event_id ev)) tab t) (visibleEventIds (view sys))
       (determineTargetTabs ev (env_myPubkey e) (store sys))"
  by (simp add: view_addEvent_def Let_def)

lemma store_onProfileFetched [simp]: "store (onProfileFetched e pk sys) = store sys"
  by (simp add: onProfileFetched_def Let_def)

lemma visibleEventIds_onProfileFetched [simp]:
  "visibleEventIds (view (onProfileFetched e pk sys)) = visibleEventIds (view sys)"
  by (simp add: onProfileFetched_def Let_def)

lemma sys_inv_step: "sys_inv sys \<Longrightarrow> sys_inv (sys_step v sys op)"
  by (cases op)
     (simp_all add: sys_inv_def store_inv_step visibleEventIds_view_addEvent tabs_distinct_foldl
        renderNow_def switchTab_def)

lemma sys_inv_foldl: "sys_inv sys \<Longrightarrow> sys_inv (foldl (sys_step v) sys ops)"
  by (induction ops arbitrary: sys) (simp_all add: sys_inv_step)

lemma sys_inv_run: "sys_inv (sys_run v t ops)"
  unfolding sys_run_def
  by (rule sys_inv_foldl)
     (simp add: sys_inv_def new_system_def store_inv_new new_ViewState_def tabs_distinct_def)

lemma lookup_id:
  "list_all (\<lambda>(k, e). event_id e = k) m \<Longrightarrow> map_get m i = Some e \<Longrightarrow> event_id e = i"
  by (auto simp: map_get_def list_all_iff dest!: map_of_SomeD)

lemma lookup_events_ids:
  assumes "list_all (\<lambda>(k, e). event_id e = k) m"
  shows "map event_id (lookup_events m ids) = filter (map_has m) ids"
proof (induction ids)
  case Nil
  then show ?case by simp
next
  case (Cons i ids)
  show ?case
  proof (cases "map_get m i")
    case None
    then show ?thesis
      using Cons.IH by (simp add: lookup_events_Cons map_has_get)
  next
    case (Some e)
    then have "event_id e = i"
      using assms by (rule lookup_id [rotated])
    then show ?thesis
      using Cons.IH Some by (simp add: lookup_events_Cons map_has_get)
  qed
qed

lemma distinct_lookup_events:
  assumes "list_all (\<lambda>(k, e). event_id e = k) m" and "distinct ids"
  shows "distinct (lookup_events m ids)"
proof -
  have "distinct (map event_id (lookup_events m ids))"
    using assms by (simp add: lookup_events_ids)
  then show ?thesis by (simp add: distinct_map)
qed

lemma tab_get_distinct:
  "tabs_distinct t \<Longrightarrow> tab_get t tab = Some ids \<Longrightarrow> distinct ids"
  by (auto simp: tabs_distinct_def tab_get_def split: if_splits)

lemma count_list_distinct:
  "distinct xs \<Longrightarrow> count_list xs x = (if x \<in> set xs then 1 else 0)"
  by (induction xs) auto

lemma getVisibleEvents_distinct:
  assumes "sys_inv sys" and "getVisibleEvents tab opts sys = Inr r"
  shows "distinct r"
proof -
  obtain ids where ids: "tab_get (visibleEventIds (view sys)) tab = Some ids"
    using assms(2) by (auto simp: getVisibleEvents_def split: option.splits)
  have "distinct (lookup_events (events (store sys)) ids)"
    using assms(1) ids
    by (auto simp: sys_inv_def store_inv_def intro!: distinct_lookup_events dest: tab_get_distinct)
  then show ?thesis
    using assms(2) ids
    by (auto simp: getVisibleEvents_def Let_def split: option.splits)
qed

lemma getVisibleEvents_has_profile:
  "getVisibleEvents tab opts sys = Inr r \<Longrightarrow> e \<in> set r \<Longrightarrow>
     map_has (profiles (store sys)) (pubkey e)"
  by (auto simp: getVisibleEvents_def Let_def split: option.splits)

lemma getVisibleEvents_no_filter:
  "tab_get (visibleEventIds (view sys)) tab = Some ids \<Longrightarrow>
     getVisibleEvents tab no_filter sys =
       Inr (js_sort by_created_at_desc
              (filter (\<lambda>ev. map_has (profiles (store sys)) (pubkey ev))
                 (lookup_events (events (store sys)) ids)))"
  by (simp add: getVisibleEvents_def no_filter_def Let_def)

lemma map_has_addProfile: "map_has (profiles (snd (addProfile pk d s))) pk"
  by (auto simp: addProfile_def map_has_get split: option.splits)

lemma getEventsByTab_global:
  assumes "store_inv s" and "map_get (events s) (event_id e) = Some e"
    and "kind e = 1 \<or> kind e = 6"
  shows "\<exists>r. getEventsByTab ''global'' no_filter s = Inr r \<and> count_list r e = 1"
proof -
  let ?m = "events s"
  let ?P = "\<lambda>ev. kind ev = 1 \<or> kind ev = 6"
  obtain ids where ids: "filter_ids ?P ?m (map fst ?m) = Inr ids"
    using filter_ids_total [of "map fst ?m" ?m ?P] by auto
  have key: "event_id e \<in> set (map fst ?m)"
    using assms(2) map_has_keys [of ?m "event_id e"] by (simp add: map_has_get)
  have mem: "event_id e \<in> set ids"
    unfolding filter_ids_mem [OF ids] using key assms(2,3) by blast
  have "subseq ids (map fst ?m)"
    using ids by (rule filter_ids_subseq)
  then have d: "distinct ids"
    using assms(1) by (auto simp: store_inv_def intro: subseq_distinct_keys)
  let ?r = "js_sort by_created_at_desc (lookup_events ?m ids)"
  have r: "getEventsByTab ''global'' no_filter s = Inr ?r"
    using ids by (simp add: getEventsByTab_def no_filter_def map_keys_def)
  have "distinct (lookup_events ?m ids)"
    using assms(1) d by (auto simp: store_inv_def intro: distinct_lookup_events)
  moreover have "e \<in> set (lookup_events ?m ids)"
    using mem assms(2) by (auto simp: set_lookup_events)
  ultimately have "count_list ?r e = 1"
    by (simp add: count_list_distinct)
  then show ?thesis using r by blast
qed

section \<open>The example runs of the store and the view state\<close>

lemmas eval_defs =
  sys_run_def store_run_def new_system_def new_DataStore_def new_ViewState_def
  new_ProfileFetcher_def addEvent_def addProfile_def categorizeEvent_def
  updateOldestTimestamps_def updateReactionCount_def first_tag_value_def tag_at_def
  map_has_def map_get_def map_set_def map_keys_def set_has_def set_add_def set_delete_def
  view_addEvent_def determineTargetTabs_def tab_map_def tab_get_def scheduleRender_def
  request_def scheduleFlush_def batchDelay_def renderDelay_def onProfileFetched_def
  getVisibleEvents_def getEventsByTab_def lookup_events_def map_filter_simps js_sort_def
  by_created_at_desc_def no_filter_def is_flowgazer_def Let_def
  sig_ok_def good_event_def bad_event_def like_event_def old_profile_def new_profile_def
  note_a_def note_b_def env0_def ops_reordered_def ops_pending_def ops_arrived_def

lemma reordered_state:
  "sys_run sig_ok 0 ops_reordered =
     \<lparr> store = \<lparr> events = [(''a1'', note_a), (''b1'', note_b)],
                 profiles = [(''alice'', old_profile)], myPostIds = [], receivedLikeIds = [],
                 followingPubkeys = [], likedByMeIds = [], reactionCounts = [],
                 oldestTimestamps = \<lparr> global = 0, following = 0, myposts = 0, likes = 0 \<rparr> \<rparr>,
       view = \<lparr> visibleEventIds = \<lparr> global = [''b1'', ''a1''], following = [], myposts = [],
                   likes = [] \<rparr>,
                pendingEventIds = [], renderTimer = Some 300 \<rparr>,
       fetcher = \<lparr> queue = [], inProgress = [], timer = None \<rparr> \<rparr>"
  by (simp add: eval_defs)

lemma reordered_visible:
  "getVisibleEvents ''global'' no_filter (sys_run sig_ok 0 ops_reordered) = Inr [note_b, note_a]"
  unfolding reordered_state by (simp add: eval_defs)

lemma pending_state:
  "sys_run sig_ok 0 ops_pending =
     \<lparr> store = \<lparr> events = [(''e1'', good_event)],
                 profiles = [], myPostIds = [], receivedLikeIds = [],
                 followingPubkeys = [], likedByMeIds = [], reactionCounts = [],
                 oldestTimestamps = \<lparr> global = 0, following = 0, myposts = 0, likes = 0 \<rparr> \<rparr>,
       view = \<lparr> visibleEventIds = \<lparr> global = [''e1''], following = [], myposts = [],
                   likes = [] \<rparr>,
                pendingEventIds = [''e1''], renderTimer = Some 300 \<rparr>,
       fetcher = \<lparr> queue = [''alice''], inProgress = [], timer = Some 500 \<rparr> \<rparr>"
  by (simp add: eval_defs)

lemma arrived_state:
  "sys_run sig_ok 0 ops_arrived =
     \<lparr> store = \<lparr> events = [(''e1'', good_event)],
                 profiles = [(''alice'', old_profile)], myPostIds = [], receivedLikeIds = [],
                 followingPubkeys = [], likedByMeIds = [], reactionCounts = [],
                 oldestTimestamps = \<lparr> global = 0, following = 0, myposts = 0, likes = 0 \<rparr> \<rparr>,
       view = \<lparr> visibleEventIds = \<lparr> global = [''e1''], following = [], myposts = [],
                   likes = [] \<rparr>,
                pendingEventIds = [''e1''], renderTimer = Some 300 \<rparr>,
       fetcher = \<lparr> queue = [''alice''], inProgress = [], timer = Some 500 \<rparr> \<rparr>"
  by (simp add: eval_defs)

lemma pending_visible:
  "getVisibleEvents ''global'' no_filter (sys_run sig_ok 0 ops_pending) = Inr []"
  unfolding pending_state by (simp add: eval_defs)

lemma arrived_visible:
  "getVisibleEvents ''global'' no_filter (sys_run sig_ok 0 ops_arrived) = Inr [good_event]"
  unfolding arrived_state by (simp add: eval_defs)

lemma pending_store_query:
  "getEventsByTab ''global'' no_filter (store (sys_run sig_ok 0 ops_pending)) = Inr [good_event]"
  unfolding pending_state by (simp add: eval_defs)

section \<open>Lemmas on the view queries and the pending set\<close>

lemma getVisibleEvents_presort:
  assumes "getVisibleEvents tab opts sys = Inr r"
    and "tab_get (visibleEventIds (view sys)) tab = Some ids"
  shows "\<exists>evs. subseq evs (lookup_events (events (store sys)) ids) \<and>
           r = js_sort by_created_at_desc evs"
proof -
  define evs where "evs = lookup_events (events (store sys)) ids"
  define evs1 where "evs1 = (if flowgazerOnly opts \<and> tab \<noteq> ''likes''
                      then filter (\<lambda>ev. kind ev = 1 \<and> is_flowgazer ev) evs else evs)"
  define evs2 where "evs2 = (case authors opts of
                        Some as \<Rightarrow>
                          if length as > 0 then filter (\<lambda>ev. pubkey ev \<in> set as) evs1 else evs1
                      | None \<Rightarrow> evs1)"
  define evs3 where "evs3 = filter (\<lambda>ev. map_has (profiles (store sys)) (pubkey ev)) evs2"
  have r: "r = js_sort by_created_at_desc evs3"
    using assms unfolding getVisibleEvents_def Let_def evs_def evs1_def evs2_def evs3_def
    by simp
  have "subseq evs1 evs" by (simp add: evs1_def)
  moreover have "subseq evs2 evs1" by (simp add: evs2_def split: option.splits)
  moreover have "subseq evs3 evs2" by (simp add: evs3_def)
  ultimately have "subseq evs3 evs"
    by (meson subseq_order.trans)
  then show ?thesis using r evs_def by blast
qed

lemma ties_subseq:
  "subseq evs base \<Longrightarrow>
     subseq (filter (\<lambda>e. created_at e = t) (js_sort by_created_at_desc evs)) base"
proof -
  assume "subseq evs base"
  moreover have "subseq (filter (\<lambda>e. created_at e = t) evs) evs" by simp
  ultimately show ?thesis
    unfolding js_sort_stable by (meson subseq_order.trans)
qed

lemma distinct_stored_events:
  assumes "store_inv s"
  shows "distinct (map snd (events s))"
proof -
  have eq: "map (event_id \<circ> snd) (events s) = map fst (events s)"
    using assms by (auto simp: store_inv_def list_all_iff)
  have keys: "distinct (map fst (events s))"
    using assms by (simp add: store_inv_def)
  have "distinct (map (event_id \<circ> snd) (events s))"
    unfolding eq by (rule keys)
  then have "distinct (map event_id (map snd (events s)))"
    by (simp only: map_map)
  then show ?thesis
    unfolding distinct_map [of event_id] by blast
qed

lemma set_foldl_set_delete:
  "set (foldl (\<lambda>p i. set_delete i p) p xs) = set p - set xs"
  by (induction xs arbitrary: p) (auto simp: set_delete_def)

lemma pending_onProfileFetched:
  "set (pendingEventIds (view (onProfileFetched en pk sys))) =
     {i \<in> set (pendingEventIds (view sys)).
        \<not> (\<exists>ev. map_get (events (store sys)) i = Some ev \<and> pubkey ev = pk)}"
proof -
  let ?P = "\<lambda>eventId. case map_get (events (store sys)) eventId of
                        Some ev \<Rightarrow> pubkey ev = pk
                      | None \<Rightarrow> False"
  have "pendingEventIds (view (onProfileFetched en pk sys)) =
          foldl (\<lambda>p i. set_delete i p) (pendingEventIds (view sys))
            (filter ?P (pendingEventIds (view sys)))"
    by (simp add: onProfileFetched_def Let_def)
  then have "set (pendingEventIds (view (onProfileFetched en pk sys))) =
          {i \<in> set (pendingEventIds (view sys)). \<not> ?P i}"
    by (auto simp: set_foldl_set_delete)
  then show ?thesis
    by (auto split: option.splits)
qed

lemma pending_view_addEvent:
  "set (pendingEventIds (view sys)) \<subseteq> set (pendingEventIds (view (view_addEvent en ev tab sys)))"
  by (auto simp: view_addEvent_def Let_def set_add_def)

lemma pending_removed_only_by_onProfileFetched:
  assumes "i \<in> set (pendingEventIds (view sys))"
    and "i \<notin> set (pendingEventIds (view (sys_step v sys op)))"
  shows "\<exists>en pk ev. op = OnProfileFetched en pk \<and>
           map_get (events (store sys)) i = Some ev \<and> pubkey ev = pk"
proof (cases op)
  case (Store x1)
  then show ?thesis using assms by simp
next
  case (ViewAddEvent en ev tab)
  then show ?thesis using assms pending_view_addEvent [of sys en ev tab] by auto
next
  case (OnProfileFetched en pk)
  then show ?thesis using assms by (auto simp: pending_onProfileFetched)
next
  case (ScheduleRender en)
  then show ?thesis using assms by simp
next
  case RenderNow
  then show ?thesis using assms by (simp add: renderNow_def)
next
  case (SwitchTab tab)
  then show ?thesis using assms by (simp add: switchTab_def renderNow_def)
next
  case (RequestProfile t pk)
  then show ?thesis using assms by simp
qed

lemma reordered_store_query:
  "getEventsByTab ''global'' no_filter (store (sys_run sig_ok 0 ops_reordered))
     = Inr [note_a, note_b]"
  unfolding reordered_state by (simp add: eval_defs)

lemma removed_by_onProfileFetched:
  "map_get (events (store sys)) i = Some ev \<Longrightarrow> pubkey ev = pk \<Longrightarrow>
     i \<notin> set (pendingEventIds (view (onProfileFetched en pk sys)))"
  by (simp add: pending_onProfileFetched)

section \<open>Lemmas on the relay manager\<close>

lemma reconnect_delays_append [simp]:
  "reconnect_delays (xs @ ys) = reconnect_delays xs @ reconnect_delays ys"
  by (induction xs rule: reconnect_delays.induct) simp_all

lemma unsubscribe_quiet:
  "reconnectAttempts (fst (unsubscribe i rm)) = reconnectAttempts rm \<and>
   reconnect_delays (snd (unsubscribe i rm)) = []"
  by (simp add: unsubscribe_def)

lemma unsubscribe_fold_quiet:
  "reconnect_delays out = [] \<Longrightarrow>
   reconnectAttempts (fst (foldl (\<lambda>(r, out) subId. let (r', out') = unsubscribe subId r
        in (r', out @ out')) (rm, out) ids)) = reconnectAttempts rm \<and>
   reconnect_delays (snd (foldl (\<lambda>(r, out) subId. let (r', out') = unsubscribe subId r
        in (r', out @ out')) (rm, out) ids)) = []"
proof (induction ids arbitrary: rm out)
  case Nil
  then show ?case by simp
next
  case (Cons i ids)
  obtain r' out' where u: "unsubscribe i rm = (r', out')" by (cases "unsubscribe i rm")
  have q: "reconnectAttempts r' = reconnectAttempts rm" "reconnect_delays out' = []"
    using unsubscribe_quiet [of i rm] u by simp_all
  have "reconnect_delays (out @ out') = []"
    using Cons.prems q(2) by simp
  from Cons.IH [OF this, of r'] show ?case
    using u q(1) by simp
qed

lemma unsubscribeAll_quiet:
  "reconnectAttempts (fst (unsubscribeAll rm)) = reconnectAttempts rm \<and>
   reconnect_delays (snd (unsubscribeAll rm)) = []"
  unfolding unsubscribeAll_def by (rule unsubscribe_fold_quiet) simp

lemma disconnect_quiet:
  "reconnectAttempts (fst (disconnect rm)) = reconnectAttempts rm \<and>
   reconnect_delays (snd (disconnect rm)) = []"
proof (cases "ws rm")
  case None
  then show ?thesis by (simp add: disconnect_def)
next
  case (Some st)
  obtain r out where u: "unsubscribeAll rm = (r, out)" by (cases "unsubscribeAll rm")
  then show ?thesis
    using Some unsubscribeAll_quiet [of rm] by (simp add: disconnect_def)
qed

lemma connect_quiet:
  "reconnectAttempts (fst (connect wsOk u rm)) = reconnectAttempts rm \<and>
   reconnect_delays (snd (connect wsOk u rm)) = []"
proof -
  obtain r out where d: "disconnect rm = (r, out)" by (cases "disconnect rm")
  then show ?thesis
    using disconnect_quiet [of rm]
    by (simp add: connect_def Let_def)
qed

lemma reconnect_timer_quiet:
  "reconnectAttempts (fst (reconnect_timer wsOk rm)) = reconnectAttempts rm \<and>
   reconnect_delays (snd (reconnect_timer wsOk rm)) = []"
  using connect_quiet by (simp add: reconnect_timer_def split: option.splits)

lemma connect_timeout_quiet:
  "reconnectAttempts (fst (connect_timeout rm)) = reconnectAttempts rm \<and>
   reconnect_delays (snd (connect_timeout rm)) = []"
  by (simp add: connect_timeout_def split: option.splits)

lemma ws_onerror_quiet:
  "reconnectAttempts (fst (ws_onerror rm)) = reconnectAttempts rm \<and>
   reconnect_delays (snd (ws_onerror rm)) = []"
  by (simp add: ws_onerror_def)

lemma attemptReconnect_delays:
  "reconnect_delays (snd (attemptReconnect rm)) =
     (if reconnectAttempts rm < maxReconnectAttempts
      then [backoff_delay (Suc (reconnectAttempts rm))] else [])"
  by (simp add: attemptReconnect_def Let_def backoff_delay_def)

lemma attemptReconnect_counter:
  "reconnectAttempts (fst (attemptReconnect rm)) =
     (if reconnectAttempts rm < maxReconnectAttempts
      then Suc (reconnectAttempts rm) else reconnectAttempts rm)"
  by (simp add: attemptReconnect_def Let_def)

lemma step_quiet:
  "\<not> is_close op \<Longrightarrow> op \<noteq> WsOpen \<Longrightarrow>
     reconnectAttempts (fst (relay_step wsOk rm op)) = reconnectAttempts rm \<and>
     reconnect_delays (snd (relay_step wsOk rm op)) = []"
  by (cases op)
     (simp_all add: is_close_def connect_quiet disconnect_quiet ws_onerror_quiet
        connect_timeout_quiet reconnect_timer_quiet)

lemma step_close:
  "reconnect_delays (snd (relay_step wsOk rm (WsClose c))) =
     (if reconnectAttempts rm < maxReconnectAttempts
      then [backoff_delay (Suc (reconnectAttempts rm))] else []) \<and>
   reconnectAttempts (fst (relay_step wsOk rm (WsClose c))) =
     (if reconnectAttempts rm < maxReconnectAttempts
      then Suc (reconnectAttempts rm) else reconnectAttempts rm)"
  by (simp add: ws_onclose_def attemptReconnect_delays attemptReconnect_counter)

lemma backoff_unfold:
  "backoff n = (if n < maxReconnectAttempts then backoff_delay (Suc n) # backoff (Suc n) else [])"
  by (simp add: backoff_def upt_conv_Cons del: upt_Suc)

lemma relay_run_Cons:
  "relay_run wsOk rm (op # ops) =
     (fst (relay_run wsOk (fst (relay_step wsOk rm op)) ops),
      snd (relay_step wsOk rm op) @ snd (relay_run wsOk (fst (relay_step wsOk rm op)) ops))"
  by (simp add: case_prod_beta Let_def)

lemma run_delays:
  "WsOpen \<notin> set ops \<Longrightarrow>
     reconnect_delays (snd (relay_run wsOk rm ops)) =
       take (length (filter is_close ops)) (backoff (reconnectAttempts rm))"
proof (induction ops arbitrary: rm)
  case Nil
  then show ?case by simp
next
  case (Cons op ops)
  let ?rm1 = "fst (relay_step wsOk rm op)"
  have IH: "reconnect_delays (snd (relay_run wsOk ?rm1 ops)) =
       take (length (filter is_close ops)) (backoff (reconnectAttempts ?rm1))"
    using Cons by simp
  show ?case
  proof (cases "is_close op")
    case True
    then obtain c where op: "op = WsClose c"
      by (cases op) (simp_all add: is_close_def)
    have bo: "backoff (reconnectAttempts rm) =
        (if reconnectAttempts rm < maxReconnectAttempts
         then backoff_delay (Suc (reconnectAttempts rm)) # backoff (Suc (reconnectAttempts rm))
         else [])"
      by (rule backoff_unfold)
    show ?thesis
      unfolding relay_run_Cons
      using IH step_close [of wsOk rm c] True op bo
      by (simp del: relay_step.simps relay_run.simps)
  next
    case False
    moreover have "op \<noteq> WsOpen" using Cons.prems by auto
    ultimately show ?thesis
      unfolding relay_run_Cons
      using IH step_quiet [of op wsOk rm]
      by (simp del: relay_step.simps relay_run.simps)
  qed
qed

lemma ws_onopen_counter: "reconnectAttempts (fst (ws_onopen rm)) = 0"
  by (simp add: ws_onopen_def resubscribeAll_def)

lemma step_open:
  "ws rm = Some CONNECTING \<Longrightarrow>
     reconnectAttempts (fst (relay_step wsOk rm WsOpen)) = 0 \<and>
     reconnect_delays (snd (relay_step wsOk rm WsOpen)) = []"
  by (simp add: ws_onopen_def resubscribeAll_def)

lemma step_counter:
  "reconnectAttempts (fst (relay_step wsOk rm op)) =
     (if is_close op
      then (if reconnectAttempts rm < 3 then reconnectAttempts rm + 1 else reconnectAttempts rm)
      else if op = WsOpen \<and> ws rm = Some CONNECTING then 0
      else reconnectAttempts rm)"
proof (cases "is_close op")
  case True
  then obtain c where op: "op = WsClose c"
    by (cases op) (simp_all add: is_close_def)
  show ?thesis
    using True step_close [of wsOk rm c]
    unfolding op by (simp add: maxReconnectAttempts_def del: relay_step.simps)
next
  case False
  show ?thesis
  proof (cases "op = WsOpen")
    case True
    then show ?thesis
      using False by (simp add: ws_onopen_def resubscribeAll_def)
  next
    case n: False
    then show ?thesis
      using False step_quiet [of op wsOk rm] by (simp del: relay_step.simps)
  qed
qed

lemma relay_run_append:
  "relay_run wsOk rm (xs @ ys) =
     (fst (relay_run wsOk (fst (relay_run wsOk rm xs)) ys),
      snd (relay_run wsOk rm xs) @ snd (relay_run wsOk (fst (relay_run wsOk rm xs)) ys))"
proof (induction xs arbitrary: rm)
  case Nil
  then show ?case by simp
next
  case (Cons x xs)
  show ?case
    unfolding append_Cons relay_run_Cons Cons.IH
    by (simp del: relay_step.simps relay_run.simps)
qed

lemma run_counter:
  "WsOpen \<notin> set ops \<Longrightarrow> reconnectAttempts rm \<le> 3 \<Longrightarrow>
     reconnectAttempts (fst (relay_run wsOk rm ops)) =
       min 3 (reconnectAttempts rm + length (filter is_close ops))"
proof (induction ops arbitrary: rm)
  case Nil
  then show ?case by simp
next
  case (Cons op ops)
  let ?rm1 = "fst (relay_step wsOk rm op)"
  have n: "op \<noteq> WsOpen" "WsOpen \<notin> set ops"
    using Cons.prems(1) by auto
  have c: "reconnectAttempts ?rm1 =
     (if is_close op
      then (if reconnectAttempts rm < 3 then reconnectAttempts rm + 1 else reconnectAttempts rm)
      else reconnectAttempts rm)"
    unfolding step_counter using n(1) by simp
  then have le: "reconnectAttempts ?rm1 \<le> 3"
    using Cons.prems(2) by (simp split: if_splits)
  have "reconnectAttempts (fst (relay_run wsOk ?rm1 ops)) =
       min 3 (reconnectAttempts ?rm1 + length (filter is_close ops))"
    using n(2) le by (rule Cons.IH)
  then show ?case
    unfolding relay_run_Cons fst_conv c
    using Cons.prems(2) by (simp split: if_splits)
qed

lemmas relay_eval_defs =
  new_RelayManager_def connect_def disconnect_def unsubscribeAll_def unsubscribe_def
  resubscribeAll_def attemptReconnect_def ws_onopen_def ws_onerror_def ws_onclose_def
  connect_timeout_def reconnect_timer_def maxReconnectAttempts_def map_keys_def map_set_def
  any_url_ok_def relay_url_def ops_established_def ops_dropped_def ops_reconnected_def
  ops_handshake_error_def ops_handshake_timeout_def Let_def

lemma backoff_0: "backoff 0 = [2000, 4000, 8000]"
  by (simp add: backoff_def maxReconnectAttempts_def backoff_delay_def upt_conv_Cons del: upt_Suc)

lemma backoff_capped: "n \<ge> 3 \<Longrightarrow> backoff n = []"
  by (simp add: backoff_def maxReconnectAttempts_def)

lemma run_across_open:
  assumes "ws (fst (relay_run wsOk rm ops1)) = Some CONNECTING" and "WsOpen \<notin> set ops2"
  shows "reconnect_delays (snd (relay_run wsOk rm (ops1 @ WsOpen # ops2))) =
           reconnect_delays (snd (relay_run wsOk rm ops1)) @
           take (length (filter is_close ops2)) [2000, 4000, 8000]"
proof -
  let ?rm1 = "fst (relay_run wsOk rm ops1)"
  let ?rm2 = "fst (relay_step wsOk ?rm1 WsOpen)"
  have o: "reconnectAttempts ?rm2 = 0" "reconnect_delays (snd (relay_step wsOk ?rm1 WsOpen)) = []"
    using step_open [OF assms(1), of wsOk] by simp_all
  have "reconnect_delays (snd (relay_run wsOk ?rm2 ops2)) =
          take (length (filter is_close ops2)) (backoff (reconnectAttempts ?rm2))"
    using assms(2) by (rule run_delays)
  then have d: "reconnect_delays (snd (relay_run wsOk ?rm2 ops2)) =
          take (length (filter is_close ops2)) [2000, 4000, 8000]"
    unfolding o(1) backoff_0 .
  show ?thesis
    unfolding relay_run_append relay_run_Cons snd_conv fst_conv reconnect_delays_append
    using o(2) d by (simp del: relay_step.simps relay_run.simps)
qed

lemma backoff_delay_eq: "backoff_delay (Suc n) = min (1000 * 2 ^ (n + 1)) 10000"
  by (simp add: backoff_delay_def)

lemma ws_disconnect: "ws (fst (disconnect rm)) = None"
  by (cases "unsubscribeAll rm") (simp add: disconnect_def split: option.splits)

lemma socket_close_not_connecting: "socket_close st \<noteq> CONNECTING"
  by (cases st) simp_all

lemma step_capped:
  assumes "reconnectAttempts rm \<ge> maxReconnectAttempts" and "ws rm \<noteq> Some CONNECTING"
    and "\<not> calls_connect op"
  shows "reconnectAttempts (fst (relay_step wsOk rm op)) \<ge> maxReconnectAttempts \<and>
         ws (fst (relay_step wsOk rm op)) \<noteq> Some CONNECTING \<and>
         reconnect_delays (snd (relay_step wsOk rm op)) = []"
proof (cases op)
  case (Connect u)
  then show ?thesis using assms(3) by (simp add: calls_connect_def)
next
  case Disconnect
  then show ?thesis using assms(1) disconnect_quiet [of rm] by (simp add: ws_disconnect)
next
  case WsOpen
  then show ?thesis using assms by simp
next
  case (WsError c)
  then show ?thesis using assms by (simp add: ws_onerror_def)
next
  case (WsClose c)
  then show ?thesis using assms by (simp add: ws_onclose_def attemptReconnect_def)
next
  case ConnectTimeoutFires
  then show ?thesis
    using assms by (auto simp: connect_timeout_def socket_close_not_connecting split: option.splits)
next
  case ReconnectTimerFires
  then show ?thesis using assms(3) by (simp add: calls_connect_def)
qed

lemma run_capped:
  "reconnectAttempts rm \<ge> maxReconnectAttempts \<Longrightarrow> ws rm \<noteq> Some CONNECTING \<Longrightarrow>
   \<not> list_ex calls_connect ops \<Longrightarrow>
     reconnect_delays (snd (relay_run wsOk rm ops)) = [] \<and>
     reconnectAttempts (fst (relay_run wsOk rm ops)) \<ge> maxReconnectAttempts"
proof (induction ops arbitrary: rm)
  case Nil
  then show ?case by simp
next
  case (Cons op ops)
  have s: "reconnectAttempts (fst (relay_step wsOk rm op)) \<ge> maxReconnectAttempts \<and>
         ws (fst (relay_step wsOk rm op)) \<noteq> Some CONNECTING \<and>
         reconnect_delays (snd (relay_step wsOk rm op)) = []"
    using Cons.prems by (intro step_capped) simp_all
  then have "reconnect_delays (snd (relay_run wsOk (fst (relay_step wsOk rm op)) ops)) = [] \<and>
     reconnectAttempts (fst (relay_run wsOk (fst (relay_step wsOk rm op)) ops))
       \<ge> maxReconnectAttempts"
    using Cons.IH [of "fst (relay_step wsOk rm op)"] Cons.prems(3) by simp
  then show ?case
    unfolding relay_run_Cons using s by (simp del: relay_step.simps relay_run.simps)
qed

lemma attemptReconnect_effects:
  "snd (attemptReconnect rm) =
     (if reconnectAttempts rm < 3
      then [SetTimeout ReconnectTimer (min (1000 * 2 ^ (reconnectAttempts rm + 1)) 10000)]
      else [])"
  by (simp add: attemptReconnect_def Let_def maxReconnectAttempts_def)

lemma established_state:
  "fst (relay_run any_url_ok new_RelayManager ops_established) =
     \<lparr> ws = Some OPEN, url = Some relay_url, subscriptions = [], reconnectAttempts = 0,
       isConnecting = False \<rparr>"
  by (simp add: relay_eval_defs)

lemma dropped_closes: "length (filter is_close ops_dropped) = 5 \<and> WsOpen \<notin> set ops_dropped"
  by (simp add: ops_dropped_def is_close_def)

lemma reconnected_state:
  "fst (relay_run any_url_ok new_RelayManager ops_reconnected) =
     \<lparr> ws = Some CONNECTING, url = Some relay_url, subscriptions = [], reconnectAttempts = 3,
       isConnecting = True \<rparr>"
  by (simp add: relay_eval_defs)

lemma reconnected_delays:
  "reconnect_delays (snd (relay_run any_url_ok new_RelayManager ops_reconnected)) =
     [2000, 4000, 8000]"
  by (simp add: relay_eval_defs)

section \<open>Lemmas on the profile fetcher\<close>

lemma foldl_set_add_fresh:
  "distinct (acc @ ks) \<Longrightarrow> foldl (\<lambda>acc pk. set_add pk acc) acc ks = acc @ ks"
proof (induction ks arbitrary: acc)
  case Nil
  then show ?case by simp
next
  case (Cons k ks)
  have "set_add k acc = acc @ [k]"
    using Cons.prems by (simp add: set_add_def)
  moreover have "distinct ((acc @ [k]) @ ks)"
    using Cons.prems by simp
  ultimately show ?case
    using Cons.IH [of "acc @ [k]"] by simp
qed

lemma request_fresh:
  "\<not> map_has (profiles ds) pk \<Longrightarrow> pk \<notin> set (inProgress pf) \<Longrightarrow>
     request t ds pk pf =
       pf\<lparr>queue := set_add pk (queue pf), timer := Some (t + batchDelay)\<rparr>"
  by (simp add: request_def set_has_def scheduleFlush_def)

lemma requestMultiple_fresh:
  assumes "distinct (queue pf @ ks)"
    and "\<forall>k \<in> set ks. \<not> map_has (profiles ds) k"
    and "set ks \<inter> set (inProgress pf) = {}"
    and "ks \<noteq> []"
  shows "requestMultiple t ds ks pf =
           pf\<lparr>queue := queue pf @ ks, timer := Some (t + batchDelay)\<rparr>"
  using assms
proof (induction ks arbitrary: pf)
  case Nil
  then show ?case by simp
next
  case (Cons k ks)
  let ?pf1 = "pf\<lparr>queue := queue pf @ [k], timer := Some (t + batchDelay)\<rparr>"
  have r: "request t ds k pf = ?pf1"
    using Cons.prems by (simp add: request_fresh set_add_def)
  show ?case
  proof (cases "ks = []")
    case True
    then show ?thesis using r by (simp add: requestMultiple_def)
  next
    case False
    have "requestMultiple t ds ks ?pf1 =
            ?pf1\<lparr>queue := queue ?pf1 @ ks, timer := Some (t + batchDelay)\<rparr>"
      using Cons.prems False by (intro Cons.IH) auto
    then show ?thesis
      using r by (simp add: requestMultiple_def)
  qed
qed

lemma flush_connected:
  assumes "queue pf \<noteq> []" and "ws rm = Some OPEN"
    and "distinct (inProgress pf @ take maxBatchSize (queue pf))"
  shows "flush t rm pf =
           (pf\<lparr>queue := [], inProgress := inProgress pf @ take maxBatchSize (queue pf)\<rparr>,
            rm\<lparr>subscriptions :=
                 map_set (''profiles-'' @ dec_string (nat t))
                   (ProfilesHandler (''profiles-'' @ dec_string (nat t))
                      (take maxBatchSize (queue pf)))
                   (subscriptions rm)\<rparr>,
            [Send (REQ (''profiles-'' @ dec_string (nat t))
                     [\<lparr>filter_kinds = [0],
                        filter_authors = take maxBatchSize (queue pf)\<rparr>])])"
  using assms
  by (simp add: flush_def Let_def subscribe_def foldl_set_add_fresh del: dec_string.simps)

lemma dec_string_500: "dec_string 500 = ''500''"
  by code_simp

lemma length_keys150: "length keys150 = 150"
  by (simp add: keys150_def)

lemma distinct_keys150: "distinct keys150"
proof -
  have "inj_on (\<lambda>n. replicate (Suc n) CHR ''k'') (set [0..<150])"
  proof (rule inj_onI)
    fix x y :: nat
    assume "replicate (Suc x) CHR ''k'' = replicate (Suc y) CHR ''k''"
    then have "length (replicate (Suc x) CHR ''k'') = length (replicate (Suc y) CHR ''k'')"
      by (rule arg_cong)
    then show "x = y" by simp
  qed
  then show ?thesis
    unfolding keys150_def by (simp add: distinct_map del: replicate.simps upt_Suc)
qed

lemma keys150_nonempty: "keys150 \<noteq> []"
  using length_keys150 by auto

lemma fetcher150_state:
  "fetcher150 = \<lparr> queue = keys150, inProgress = [], timer = Some 500 \<rparr>"
proof -
  have "requestMultiple 0 (new_DataStore 0) keys150 new_ProfileFetcher =
          new_ProfileFetcher\<lparr>queue := queue new_ProfileFetcher @ keys150,
                              timer := Some (0 + batchDelay)\<rparr>"
    by (rule requestMultiple_fresh)
       (simp_all add: new_ProfileFetcher_def new_DataStore_def map_has_def distinct_keys150
          keys150_nonempty)
  then show ?thesis
    by (simp add: fetcher150_def new_ProfileFetcher_def batchDelay_def)
qed

lemma rm_connected_state:
  "rm_connected =
     \<lparr> ws = Some OPEN, url = Some relay_url, subscriptions = [], reconnectAttempts = 0,
       isConnecting = False \<rparr>"
  by (simp add: rm_connected_def established_state)

lemma flush150:
  "flush_timer_fires 500 rm_connected fetcher150 =
     (\<lparr> queue = [], inProgress = take 100 keys150, timer = None \<rparr>,
      rm_connected\<lparr>subscriptions :=
         [(''profiles-500'', ProfilesHandler ''profiles-500'' (take 100 keys150))]\<rparr>,
      [Send (REQ ''profiles-500''
               [\<lparr>filter_kinds = [0], filter_authors = take 100 keys150\<rparr>])])"
proof -
  let ?pf = "\<lparr> queue = keys150, inProgress = [], timer = None \<rparr>"
  have d: "distinct (inProgress ?pf @ take maxBatchSize (queue ?pf))"
    using distinct_keys150 by (simp add: distinct_take)
  have q: "queue ?pf \<noteq> []"
    by (simp add: keys150_nonempty)
  have w: "ws rm_connected = Some OPEN"
    by (simp add: rm_connected_state)
  have n: "nat 500 = 500"
    by simp
  have "flush_timer_fires 500 rm_connected fetcher150 = flush 500 rm_connected ?pf"
    by (simp add: flush_timer_fires_def fetcher150_state)
  also have "\<dots> =
     (\<lparr> queue = [], inProgress = take 100 keys150, timer = None \<rparr>,
      rm_connected\<lparr>subscriptions :=
         [(''profiles-500'', ProfilesHandler ''profiles-500'' (take 100 keys150))]\<rparr>,
      [Send (REQ ''profiles-500''
               [\<lparr>filter_kinds = [0], filter_authors = take 100 keys150\<rparr>])])"
    unfolding flush_connected [OF q w d] n dec_string_500
    by (simp add: maxBatchSize_def rm_connected_state map_set_def)
  finally show ?thesis .
qed

section \<open>DataStore: rejection, idempotence, profiles, reaction counts\<close>

text \<open>
  Claim C4. When signature verification fails or the id is already in the events table,
  \<open>addEvent\<close> returns \<open>False\<close> and the store it leaves is the store it was given: every
  field (events table, category sets, reaction counts, oldest-timestamp cursors) is
  unchanged. The model's \<open>addEvent\<close> has no error result because the rejecting paths of
  the source only read the table, call the verifier and log. In particular, whatever
  calls are made on a store, an event that fails verification is never in its events
  table.
\<close>

theorem addEvent_rejects_without_mutation:
  "(\<not> verifyEvent ev \<or> map_has (events s) (event_id ev)
      \<longrightarrow> addEvent verifyEvent myPubkey ev s = (False, s)) \<and>
   (\<not> verifyEvent ev \<longrightarrow> ev \<notin> snd ` set (events (store_run verifyEvent now ops)))"
proof -
  have "\<not> verifyEvent ev \<Longrightarrow> ev \<notin> snd ` set (events (store_run verifyEvent now ops))"
    using all_verified_run [of verifyEvent now ops]
    by (auto simp: all_verified_def list_all_iff)
  then show ?thesis by (auto simp: addEvent_def)
qed

theorem addEvent_rejects_without_mutation_witness:
  "\<not> sig_ok bad_event \<and>
   addEvent sig_ok JsNull bad_event (new_DataStore 0) = (False, new_DataStore 0) \<and>
   bad_event \<notin> snd ` set (events (store_run sig_ok 0
       [AddEvent JsNull bad_event, AddEvent JsNull good_event]))"
  using addEvent_rejects_without_mutation
    [of sig_ok bad_event "new_DataStore 0" JsNull 0
        "[AddEvent JsNull bad_event, AddEvent JsNull good_event]"]
  by (simp add: sig_ok_def bad_event_def)

text \<open>
  Claim C5, as stated, for any event: it fails for an event that does not pass
  verification, which both calls reject, so that the count does not change.
\<close>

theorem addEvent_twice_counterexample:
  "length (events (snd (addEvent sig_ok JsNull bad_event
      (snd (addEvent sig_ok JsNull bad_event (new_DataStore 0))))))
   \<noteq> length (events (new_DataStore 0)) + 1"
  by (simp add: addEvent_def sig_ok_def bad_event_def new_DataStore_def map_has_def)

text \<open>
  Claim C5, amended: for an event that passes verification and whose id is not yet in
  the events table, two calls of \<open>addEvent\<close> in succession raise the number of stored
  events by exactly one; the first call is accepted and the second is rejected.
\<close>

theorem addEvent_twice:
  "verifyEvent ev \<Longrightarrow> \<not> map_has (events s) (event_id ev) \<Longrightarrow>
   fst (addEvent verifyEvent my ev s) \<and>
   \<not> fst (addEvent verifyEvent my' ev (snd (addEvent verifyEvent my ev s))) \<and>
   length (events (snd (addEvent verifyEvent my' ev (snd (addEvent verifyEvent my ev s)))))
     = length (events s) + 1"
  by (simp add: addEvent_def length_map_set)

theorem addEvent_twice_witness:
  "sig_ok good_event \<and> \<not> map_has (events (new_DataStore 0)) (event_id good_event) \<and>
   fst (addEvent sig_ok JsNull good_event (new_DataStore 0)) \<and>
   \<not> fst (addEvent sig_ok JsNull good_event
           (snd (addEvent sig_ok JsNull good_event (new_DataStore 0)))) \<and>
   length (events (snd (addEvent sig_ok JsNull good_event
      (snd (addEvent sig_ok JsNull good_event (new_DataStore 0)))))) =
     length (events (new_DataStore 0)) + 1"
proof -
  have v: "sig_ok good_event"
    by (simp add: sig_ok_def good_event_def)
  have f: "\<not> map_has (events (new_DataStore 0)) (event_id good_event)"
    by (simp add: new_DataStore_def map_has_def)
  show ?thesis
    using v f addEvent_twice [of sig_ok good_event "new_DataStore 0" JsNull JsNull, OF v f]
    by simp
qed

text \<open>
  Claim C8. \<open>addProfile\<close> reports rejection exactly when a profile is stored for the
  pubkey whose \<open>created_at\<close> is greater than or equal to the incoming one, and then the
  store is unchanged (the incoming profile is discarded, nothing of it is merged).
  Otherwise it reports acceptance, the profile stored for the pubkey is the incoming one,
  and no other profile and no other field of the store changes.
\<close>

theorem addProfile_last_write_wins:
  "addProfile pk d s = (r, s') \<Longrightarrow>
     (r \<longleftrightarrow> \<not> (\<exists>ex. map_get (profiles s) pk = Some ex \<and>
                   profile_created_at ex \<ge> profile_created_at d)) \<and>
     (\<not> r \<longrightarrow> s' = s) \<and>
     (r \<longrightarrow> map_get (profiles s') pk = Some d \<and>
            (\<forall>k. k \<noteq> pk \<longrightarrow> map_get (profiles s') k = map_get (profiles s) k) \<and>
            s' = s\<lparr>profiles := profiles s'\<rparr>)"
  by (auto simp: addProfile_def split: option.splits if_splits)

theorem addProfile_last_write_wins_witness:
  "addProfile ''alice'' new_profile (snd (addProfile ''alice'' old_profile (new_DataStore 0)))
     = (True, (new_DataStore 0)\<lparr>profiles := [(''alice'', new_profile)]\<rparr>) \<and>
   addProfile ''alice'' old_profile ((new_DataStore 0)\<lparr>profiles := [(''alice'', new_profile)]\<rparr>)
     = (False, (new_DataStore 0)\<lparr>profiles := [(''alice'', new_profile)]\<rparr>)"
proof -
  let ?s1 = "snd (addProfile ''alice'' old_profile (new_DataStore 0))"
  let ?s2 = "(new_DataStore 0)\<lparr>profiles := [(''alice'', new_profile)]\<rparr>"
  have a: "addProfile ''alice'' new_profile ?s1 = (True, ?s2)"
    by (simp add: addProfile_def map_get_def map_set_def new_DataStore_def old_profile_def
        new_profile_def)
  have b: "addProfile ''alice'' old_profile ?s2 = (False, ?s2)"
    by (simp add: addProfile_def map_get_def map_set_def new_DataStore_def old_profile_def
        new_profile_def)
  show ?thesis
    using a b addProfile_last_write_wins [OF a] addProfile_last_write_wins [OF b] by simp
qed

text \<open>
  Claim C10. \<open>getReactionCount\<close> always returns a record. After any sequence of calls on
  a fresh store, for an id that no stored kind-6 or kind-7 event carries in its first
  \<^verbatim>\<open>e\<close>-tag, the record is \<^verbatim>\<open>{reposts: 0, reactions: 0}\<close>.
\<close>

theorem getReactionCount_zero_when_uncounted:
  "\<not> counted_target (store_run verifyEvent now ops) eventId \<Longrightarrow>
     getReactionCount (store_run verifyEvent now ops) eventId = \<lparr>reposts = 0, reactions = 0\<rparr>"
  using counts_inv_run [of verifyEvent now ops]
  by (auto simp: counts_inv_def getReactionCount_def map_has_get split: option.splits)

theorem getReactionCount_zero_when_uncounted_witness:
  "\<not> counted_target (store_run sig_ok 0
       [AddEvent JsNull good_event, AddEvent JsNull like_event]) ''e2'' \<and>
   getReactionCount (store_run sig_ok 0
       [AddEvent JsNull good_event, AddEvent JsNull like_event]) ''e2''
     = \<lparr>reposts = 0, reactions = 0\<rparr>"
proof -
  have h: "\<not> counted_target (store_run sig_ok 0
       [AddEvent JsNull good_event, AddEvent JsNull like_event]) ''e2''"
    unfolding like_run
    by (simp add: counted_target_def good_event_def like_event_def first_tag_value_def tag_at_def)
  show ?thesis
    using h getReactionCount_zero_when_uncounted [OF h] by simp
qed

section \<open>View queries: gating by profile, pending set, order\<close>




text \<open>
  Claim C7, as stated, fails: \<open>getVisibleEvents\<close> does not read the pending set. After an
  event was added to the store and the view and its author's profile was then stored by
  \<open>addProfile\<close>, the id of the event is still in the pending set and the event is in the
  visible result of its tab.
\<close>

theorem visible_iff_pending_counterexample:
  "''e1'' \<in> set (pendingEventIds (view (sys_run sig_ok 0 ops_arrived))) \<and>
   tab_get (visibleEventIds (view (sys_run sig_ok 0 ops_arrived))) ''global'' = Some [''e1''] \<and>
   getVisibleEvents ''global'' no_filter (sys_run sig_ok 0 ops_arrived) = Inr [good_event] \<and>
   event_id good_event = ''e1''"
  by (simp add: arrived_visible) (simp add: arrived_state tab_get_def good_event_def)

text \<open>
  Claim C7, amended. For an id in a tab's membership set whose event is in the events
  table, the event is in the unfiltered result of \<open>getVisibleEvents\<close> exactly when a profile
  is stored for its author; the pending set is not consulted. An id leaves the pending
  set only by \<open>onProfileFetched pk\<close> where \<open>pk\<close> is the author of the stored event with that
  id, and \<open>onProfileFetched pk\<close> removes exactly the pending ids of stored events whose
  author is \<open>pk\<close>.
\<close>

theorem visible_iff_profile_known:
  "(tab_get (visibleEventIds (view sys)) tab = Some ids \<and> i \<in> set ids \<and>
      map_get (events (store sys)) i = Some e \<longrightarrow>
      (\<exists>r. getVisibleEvents tab no_filter sys = Inr r \<and>
           (e \<in> set r \<longleftrightarrow> map_has (profiles (store sys)) (pubkey e)))) \<and>
   (i \<in> set (pendingEventIds (view sys)) \<and>
      i \<notin> set (pendingEventIds (view (sys_step v sys op))) \<longrightarrow>
      (\<exists>en pk ev. op = OnProfileFetched en pk \<and>
           map_get (events (store sys)) i = Some ev \<and> pubkey ev = pk)) \<and>
   set (pendingEventIds (view (onProfileFetched en pk sys))) =
     {i \<in> set (pendingEventIds (view sys)).
        \<not> (\<exists>ev. map_get (events (store sys)) i = Some ev \<and> pubkey ev = pk)}"
proof (intro conjI impI)
  assume a: "tab_get (visibleEventIds (view sys)) tab = Some ids \<and> i \<in> set ids \<and>
      map_get (events (store sys)) i = Some e"
  let ?r = "js_sort by_created_at_desc
              (filter (\<lambda>ev. map_has (profiles (store sys)) (pubkey ev))
                 (lookup_events (events (store sys)) ids))"
  have r: "getVisibleEvents tab no_filter sys = Inr ?r"
    using a by (simp add: getVisibleEvents_no_filter)
  have "e \<in> set (lookup_events (events (store sys)) ids)"
    using a by (auto simp: set_lookup_events)
  then have "e \<in> set ?r \<longleftrightarrow> map_has (profiles (store sys)) (pubkey e)"
    by simp
  then show "\<exists>r. getVisibleEvents tab no_filter sys = Inr r \<and>
           (e \<in> set r \<longleftrightarrow> map_has (profiles (store sys)) (pubkey e))"
    using r by blast
next
  assume "i \<in> set (pendingEventIds (view sys)) \<and>
      i \<notin> set (pendingEventIds (view (sys_step v sys op)))"
  then show "\<exists>en pk ev. op = OnProfileFetched en pk \<and>
           map_get (events (store sys)) i = Some ev \<and> pubkey ev = pk"
    using pending_removed_only_by_onProfileFetched by blast
next
  show "set (pendingEventIds (view (onProfileFetched en pk sys))) =
     {i \<in> set (pendingEventIds (view sys)).
        \<not> (\<exists>ev. map_get (events (store sys)) i = Some ev \<and> pubkey ev = pk)}"
    by (rule pending_onProfileFetched)
qed

text \<open>
  The theorem of C7 at the state of the counterexample, followed by \<open>onProfileFetched\<close>
  for the author.
\<close>

theorem visible_iff_profile_known_witness:
  "''e1'' \<in> set (pendingEventIds (view (sys_run sig_ok 0 ops_arrived))) \<and>
   ''e1'' \<notin> set (pendingEventIds (view (sys_step sig_ok (sys_run sig_ok 0 ops_arrived)
                    (OnProfileFetched env0 ''alice'')))) \<and>
   map_has (profiles (store (sys_run sig_ok 0 ops_arrived))) (pubkey good_event) \<and>
   (\<exists>r. getVisibleEvents ''global'' no_filter (sys_run sig_ok 0 ops_arrived) = Inr r \<and>
        good_event \<in> set r)"
proof -
  let ?S = "sys_run sig_ok 0 ops_arrived"
  have ids: "tab_get (visibleEventIds (view ?S)) ''global'' = Some [''e1'']"
    by (simp add: arrived_state tab_get_def)
  have ev: "map_get (events (store ?S)) ''e1'' = Some good_event"
    by (simp add: arrived_state map_get_def)
  have p: "map_has (profiles (store ?S)) (pubkey good_event)"
    by (simp add: arrived_state map_has_def good_event_def)
  have pend: "''e1'' \<in> set (pendingEventIds (view ?S))"
    by (simp add: arrived_state)
  have gone: "''e1'' \<notin> set (pendingEventIds (view (sys_step sig_ok ?S
                    (OnProfileFetched env0 ''alice''))))"
    unfolding sys_step.simps
    by (rule removed_by_onProfileFetched [OF ev]) (simp add: good_event_def)
  have mem: "''e1'' \<in> set [''e1'']"
    by simp
  have "\<exists>r. getVisibleEvents ''global'' no_filter ?S = Inr r \<and>
           (good_event \<in> set r \<longleftrightarrow> map_has (profiles (store ?S)) (pubkey good_event))"
    using visible_iff_profile_known [of ?S "''global''" "[''e1'']" "''e1''" good_event sig_ok
        "OnProfileFetched env0 ''alice''" env0 "''alice''", THEN conjunct1]
      ids mem ev
    by blast
  then have "\<exists>r. getVisibleEvents ''global'' no_filter ?S = Inr r \<and> good_event \<in> set r"
    using p by blast
  then show ?thesis
    using p pend gone by blast
qed

text \<open>
  Claim C9, as stated, fails for \<open>getVisibleEvents\<close>: two events with the same
  \<open>created_at\<close> are stored in the order \<open>note_a\<close>, \<open>note_b\<close> and added to the view in the
  other order. Both are returned, so the result is not strictly descending, and \<open>note_b\<close>,
  inserted into the store second, comes first.
\<close>

theorem view_query_order_counterexample:
  "getVisibleEvents ''global'' no_filter (sys_run sig_ok 0 ops_reordered) = Inr [note_b, note_a] \<and>
   created_at note_b = created_at note_a \<and>
   map snd (events (store (sys_run sig_ok 0 ops_reordered))) = [note_a, note_b]"
  by (simp add: reordered_visible) (simp add: reordered_state note_a_def note_b_def)

text \<open>
  Claim C9, amended. In a state reached by any sequence of calls on the store and the
  view state, a result of \<open>getVisibleEvents\<close> is in non-increasing order of \<open>created_at\<close>,
  and its events with one and the same \<open>created_at\<close> are in the order in which their ids
  stand in the tab's membership set (the order in which \<open>ViewState.addEvent\<close> added them).
  \<open>getEventsByTab\<close> returns a result, in non-increasing order of \<open>created_at\<close>, whose events
  with one and the same \<open>created_at\<close> are in the order of their insertion into the store.
  Both reference sequences hold every event once, so that being a subsequence fixes the
  order.
\<close>

theorem view_query_order:
  assumes "sys = sys_run v t0 ops"
  shows "(\<forall>r. getVisibleEvents tab opts sys = Inr r \<longrightarrow>
            sorted_wrt (\<lambda>a b. created_at a \<ge> created_at b) r \<and>
            (\<forall>ids. tab_get (visibleEventIds (view sys)) tab = Some ids \<longrightarrow>
               distinct (lookup_events (events (store sys)) ids) \<and>
               (\<forall>t. subseq (filter (\<lambda>e. created_at e = t) r)
                      (lookup_events (events (store sys)) ids)))) \<and>
         (\<exists>r. getEventsByTab tab opts (store sys) = Inr r \<and>
            sorted_wrt (\<lambda>a b. created_at a \<ge> created_at b) r \<and>
            distinct (map snd (events (store sys))) \<and>
            (\<forall>t. subseq (filter (\<lambda>e. created_at e = t) r) (map snd (events (store sys)))))"
proof (intro conjI allI impI)
  fix r
  assume r: "getVisibleEvents tab opts sys = Inr r"
  then obtain ids0 where ids0: "tab_get (visibleEventIds (view sys)) tab = Some ids0"
    by (auto simp: getVisibleEvents_def split: option.splits)
  obtain evs where "r = js_sort by_created_at_desc evs"
    using getVisibleEvents_presort [OF r ids0] by blast
  then show "sorted_wrt (\<lambda>a b. created_at a \<ge> created_at b) r"
    by (simp add: js_sort_sorted)
next
  fix r ids
  assume ids: "tab_get (visibleEventIds (view sys)) tab = Some ids"
  have "sys_inv sys"
    using assms by (simp add: sys_inv_run)
  then show "distinct (lookup_events (events (store sys)) ids)"
    using ids
    by (auto simp: sys_inv_def store_inv_def intro!: distinct_lookup_events dest: tab_get_distinct)
next
  fix r t ids
  assume r: "getVisibleEvents tab opts sys = Inr r"
    and ids: "tab_get (visibleEventIds (view sys)) tab = Some ids"
  obtain evs where evs: "subseq evs (lookup_events (events (store sys)) ids)"
      "r = js_sort by_created_at_desc evs"
    using getVisibleEvents_presort [OF r ids] by blast
  show "subseq (filter (\<lambda>e. created_at e = t) r) (lookup_events (events (store sys)) ids)"
    unfolding evs(2) by (rule ties_subseq [OF evs(1)])
next
  let ?s = "store sys"
  have inv: "store_inv ?s"
    using assms sys_inv_run [of v t0 ops] by (simp add: sys_inv_def)
  obtain r where r: "getEventsByTab tab opts ?s = Inr r"
    using getEventsByTab_total [OF inv] by blast
  obtain ids where ids: "subseq ids (map fst (events ?s))"
      "r = js_sort by_created_at_desc (lookup_events (events ?s) ids)"
    using getEventsByTab_presort [OF inv r] by blast
  have base: "subseq (lookup_events (events ?s) ids) (map snd (events ?s))"
    using inv ids(1) by (simp add: store_inv_def subseq_lookup_events)
  have "sorted_wrt (\<lambda>a b. created_at a \<ge> created_at b) r"
    unfolding ids(2) by (rule js_sort_sorted)
  moreover have "\<forall>t. subseq (filter (\<lambda>e. created_at e = t) r) (map snd (events ?s))"
    unfolding ids(2) using ties_subseq [OF base] by blast
  moreover have "distinct (map snd (events ?s))"
    by (rule distinct_stored_events [OF inv])
  ultimately show "\<exists>r. getEventsByTab tab opts ?s = Inr r \<and>
            sorted_wrt (\<lambda>a b. created_at a \<ge> created_at b) r \<and>
            distinct (map snd (events ?s)) \<and>
            (\<forall>t. subseq (filter (\<lambda>e. created_at e = t) r) (map snd (events ?s)))"
    using r by blast
qed

text \<open>
  The theorem of C9 at the state of the counterexample: the two queries return the two
  notes in opposite orders.
\<close>

theorem view_query_order_witness:
  "getVisibleEvents ''global'' no_filter (sys_run sig_ok 0 ops_reordered) = Inr [note_b, note_a] \<and>
   sorted_wrt (\<lambda>a b. created_at a \<ge> created_at b) [note_b, note_a] \<and>
   subseq (filter (\<lambda>e. created_at e = 10) [note_b, note_a])
     (lookup_events (events (store (sys_run sig_ok 0 ops_reordered))) [''b1'', ''a1'']) \<and>
   getEventsByTab ''global'' no_filter (store (sys_run sig_ok 0 ops_reordered))
     = Inr [note_a, note_b] \<and>
   subseq (filter (\<lambda>e. created_at e = 10) [note_a, note_b])
     (map snd (events (store (sys_run sig_ok 0 ops_reordered))))"
proof -
  have ids: "tab_get (visibleEventIds (view (sys_run sig_ok 0 ops_reordered))) ''global''
               = Some [''b1'', ''a1'']"
    by (simp add: reordered_state tab_get_def)
  show ?thesis
    using view_query_order [OF refl, of "''global''" no_filter sig_ok 0 ops_reordered]
      reordered_visible reordered_store_query ids
    by simp
qed

section \<open>RelayManager: reconnection\<close>



text \<open>
  Claim C3, as stated, fails. A socket whose handshake fails delivers \<^verbatim>\<open>error\<close> and then
  \<^verbatim>\<open>close\<close>, and a socket closed while it is connecting delivers \<^verbatim>\<open>close\<close>. On a fresh
  manager, \<open>connect\<close> followed by the socket's \<^verbatim>\<open>error\<close> and \<^verbatim>\<open>close\<close> events, with no
  \<^verbatim>\<open>open\<close> in between, rejects the caller's promise and arms a reconnect timer of 2000 ms;
  so does \<open>connect\<close> followed by the 5-second timeout, which closes the socket, and the
  \<^verbatim>\<open>close\<close> event of that socket.
\<close>

theorem reconnect_after_failed_handshake_counterexample:
  "WsOpen \<notin> set ops_handshake_error \<and>
   snd (relay_run any_url_ok new_RelayManager ops_handshake_error) =
     [NewWebSocket relay_url, SetTimeout ConnectTimeout 5000, Reject,
      SetTimeout ReconnectTimer 2000] \<and>
   WsOpen \<notin> set ops_handshake_timeout \<and>
   snd (relay_run any_url_ok new_RelayManager ops_handshake_timeout) =
     [NewWebSocket relay_url, SetTimeout ConnectTimeout 5000, SocketClose, Reject,
      SetTimeout ReconnectTimer 2000]"
  by (simp add: relay_eval_defs)

text \<open>
  Claim C3, amended. The \<^verbatim>\<open>error\<close> handler rejects the promise of \<open>connect\<close> and arms no
  timer, and so does the timeout callback while the socket is not open. A reconnect timer
  is armed by a \<^verbatim>\<open>close\<close> event and by nothing else, and by every \<^verbatim>\<open>close\<close> event while
  the attempt counter is below 3, whatever the state of the manager: the handler does not
  ask whether the connection had been established. On a manager that never had an open
  socket, the first three close events arm the timers of 2000, 4000 and 8000 ms.
\<close>

theorem reconnect_on_every_close:
  "snd (relay_step wsOk rm (WsError c)) = [Reject] \<and>
   (ws rm \<noteq> Some OPEN \<longrightarrow> Reject \<in> set (snd (relay_step wsOk rm ConnectTimeoutFires))) \<and>
   (reconnect_delays (snd (relay_step wsOk rm op)) \<noteq> [] \<longrightarrow> is_close op) \<and>
   snd (relay_step wsOk rm (WsClose c)) =
     (if reconnectAttempts rm < 3
      then [SetTimeout ReconnectTimer (min (1000 * 2 ^ (reconnectAttempts rm + 1)) 10000)]
      else []) \<and>
   (WsOpen \<notin> set ops \<longrightarrow>
      reconnect_delays (snd (relay_run wsOk new_RelayManager ops)) =
        take (length (filter is_close ops)) [2000, 4000, 8000])"
proof (intro conjI impI)
  show "snd (relay_step wsOk rm (WsError c)) = [Reject]"
    by (simp add: ws_onerror_def)
next
  assume "ws rm \<noteq> Some OPEN"
  then show "Reject \<in> set (snd (relay_step wsOk rm ConnectTimeoutFires))"
    by (simp add: connect_timeout_def split: option.splits)
next
  assume d: "reconnect_delays (snd (relay_step wsOk rm op)) \<noteq> []"
  show "is_close op"
  proof (rule ccontr)
    assume n: "\<not> is_close op"
    show False
    proof (cases "op = WsOpen")
      case True
      then show False using d by (simp add: ws_onopen_def)
    next
      case False
      then show False using d n step_quiet [of op wsOk rm] by simp
    qed
  qed
next
  show "snd (relay_step wsOk rm (WsClose c)) =
     (if reconnectAttempts rm < 3
      then [SetTimeout ReconnectTimer (min (1000 * 2 ^ (reconnectAttempts rm + 1)) 10000)]
      else [])"
    by (simp add: ws_onclose_def attemptReconnect_effects)
next
  assume "WsOpen \<notin> set ops"
  then show "reconnect_delays (snd (relay_run wsOk new_RelayManager ops)) =
        take (length (filter is_close ops)) [2000, 4000, 8000]"
    using run_delays [of ops wsOk new_RelayManager]
    by (simp add: backoff_0) (simp add: new_RelayManager_def backoff_0)
qed

text \<open>
  The theorem of C3 at the failed first handshake of the counterexample.
\<close>

theorem reconnect_on_every_close_witness:
  "ws (fst (relay_step any_url_ok new_RelayManager (Connect relay_url))) \<noteq> Some OPEN \<and>
   Reject \<in> set (snd (relay_step any_url_ok
      (fst (relay_step any_url_ok new_RelayManager (Connect relay_url))) ConnectTimeoutFires)) \<and>
   WsOpen \<notin> set ops_handshake_error \<and>
   reconnect_delays (snd (relay_run any_url_ok new_RelayManager ops_handshake_error)) = [2000] \<and>
   is_close (WsClose True)"
proof -
  let ?rm = "fst (relay_step any_url_ok new_RelayManager (Connect relay_url))"
  have w: "ws ?rm \<noteq> Some OPEN"
    by (simp add: relay_eval_defs)
  have n: "WsOpen \<notin> set ops_handshake_error"
    by (simp add: ops_handshake_error_def)
  have k: "length (filter is_close ops_handshake_error) = 1"
    by (simp add: ops_handshake_error_def is_close_def)
  note th = reconnect_on_every_close [of any_url_ok ?rm True "WsClose True" ops_handshake_error]
  have "Reject \<in> set (snd (relay_step any_url_ok ?rm ConnectTimeoutFires))"
    using th w by blast
  moreover have "reconnect_delays (snd (relay_run any_url_ok new_RelayManager ops_handshake_error))
      = [2000]"
    using th n k by simp
  moreover have "is_close (WsClose True)"
    by (simp add: is_close_def)
  ultimately show ?thesis using w n by blast
qed

section \<open>ProfileFetcher: one batch per flush\<close>

text \<open>
  Claim C1 does not hold of \<open>flush\<close>, which takes the first \<open>maxBatchSize\<close> keys of the queue
  and then clears the whole queue. Here 150 distinct keys, none stored or in flight, are
  requested at time 0 on a connected relay, and the flush timer fires at time 500: one
  subscription is sent, for the first 100 keys; the queue is empty afterwards and no
  timer is pending, so the other 50 keys are neither queued nor in flight, and no later
  firing of the timer sends anything.
\<close>

theorem batch_of_150_single_subscription:
  "length keys150 = 150 \<and> distinct keys150 \<and>
   fetcher150 = \<lparr> queue = keys150, inProgress = [], timer = Some 500 \<rparr> \<and>
   fst (flush_timer_fires 500 rm_connected fetcher150) =
     \<lparr> queue = [], inProgress = take 100 keys150, timer = None \<rparr> \<and>
   snd (snd (flush_timer_fires 500 rm_connected fetcher150)) =
     [Send (REQ ''profiles-500'' [\<lparr>filter_kinds = [0], filter_authors = take 100 keys150\<rparr>])] \<and>
   length (take 100 keys150) = 100 \<and> length (drop 100 keys150) = 50 \<and>
   set (drop 100 keys150) \<inter> set (take 100 keys150) = {} \<and>
   (\<forall>t. snd (snd (flush_timer_fires t
           (fst (snd (flush_timer_fires 500 rm_connected fetcher150)))
           (fst (flush_timer_fires 500 rm_connected fetcher150)))) = [])"
proof -
  have "distinct (take 100 keys150 @ drop 100 keys150)"
    using distinct_keys150 by simp
  then have disj: "set (drop 100 keys150) \<inter> set (take 100 keys150) = {}"
    unfolding distinct_append by blast
  show ?thesis
    unfolding flush150
    using disj
    by (simp add: length_keys150 distinct_keys150 fetcher150_state flush_timer_fires_def)
qed

end
